theory Spec2Isabelle
  imports Main "HOL-Library.Word" "HOL-Library.Log_Nat"
begin

chapter \<open>A video to ASCII-art converter\<close>

text \<open>
  The program consists of three JavaScript classes in \<open>ascii-converter.js\<close>
  (\<open>ASCIIConverter\<close>, \<open>WASMProcessor\<close> and \<open>VideoExporter\<close>), the controller
  \<open>VideoToASCIIApp\<close> in \<open>main.js\<close> and the WebGL renderer in \<open>webgl-processor.js\<close>.
  This theory embeds the CPU path of the conversion (pixel processor and text renderer), the
  exporter and the export part of the controller, and proves the properties the specification
  states about them.
\<close>

section \<open>JavaScript numbers\<close>

text \<open>
  Every JavaScript number is an IEEE 754 binary64 value. A finite double is represented by
  the rational it denotes; \<open>roundDouble\<close> is the rounding every arithmetic operation
  applies to its exact result: round to nearest, ties to even, with 53 significant bits and
  the subnormal spacing \<open>2 ^ (- 1074)\<close> below \<open>2 ^ (- 1022)\<close>. Overflow to an infinity (results of
  magnitude \<open>2 ^ 1024\<close> and more) is not represented; no value of this program comes near it.
  \<open>NaN\<close> is kept as a value of its own, because reading past the end of a typed array
  yields \<open>undefined\<close>, which arithmetic turns into \<open>NaN\<close>.

  Loop counters, array indices and pixel counts are natural numbers: they are integers far
  below \<open>2 ^ 53\<close>, where double arithmetic on integers is exact.
\<close>

definition pow2 :: "int \<Rightarrow> rat" where
  "pow2 e = (if 0 \<le> e then 2 ^ nat e else 1 / 2 ^ nat (- e))"

text \<open>The binary exponent of a positive rational \<open>x\<close>: \<open>2 ^ e \<le> x < 2 ^ (e + 1)\<close>.\<close>

definition ilog2 :: "rat \<Rightarrow> int" where
  "ilog2 x =
    (let (a, b) = quotient_of x;
         d = bitlen a - bitlen b
     in if pow2 d \<le> x then d else d - 1)"

definition roundTiesToEven :: "rat \<Rightarrow> int" where
  "roundTiesToEven y =
    (let f = \<lfloor>y\<rfloor>; d = y - of_int f
     in if d < 1 / 2 then f
        else if 1 / 2 < d then f + 1
        else if even f then f else f + 1)"

text \<open>The exponent of the unit in the last place of the double nearest to \<open>x\<close>.\<close>

definition uexp :: "rat \<Rightarrow> int" where
  "uexp x = max (ilog2 \<bar>x\<bar>) (- 1022) - 52"

definition roundDouble :: "rat \<Rightarrow> rat" where
  "roundDouble x =
    (if x = 0 then 0
     else of_int (roundTiesToEven (x / pow2 (uexp x))) * pow2 (uexp x))"

datatype jsnum = NaN | Num rat

fun jadd :: "jsnum \<Rightarrow> jsnum \<Rightarrow> jsnum" where
  "jadd (Num x) (Num y) = Num (roundDouble (x + y))"
| "jadd _ _ = NaN"

fun jsub :: "jsnum \<Rightarrow> jsnum \<Rightarrow> jsnum" where
  "jsub (Num x) (Num y) = Num (roundDouble (x - y))"
| "jsub _ _ = NaN"

fun jmul :: "jsnum \<Rightarrow> jsnum \<Rightarrow> jsnum" where
  "jmul (Num x) (Num y) = Num (roundDouble (x * y))"
| "jmul _ _ = NaN"

text \<open>
  Division by zero gives an infinity or \<open>NaN\<close> in JavaScript. The divisors of this program
  are the constants 255 and 100, a pixel count tested to be positive, and the cell size,
  whose zero case the functions below treat separately; the zero case of \<open>jdiv\<close> is never
  reached from them with a non-zero dividend.
\<close>

fun jdiv :: "jsnum \<Rightarrow> jsnum \<Rightarrow> jsnum" where
  "jdiv (Num x) (Num y) = (if y = 0 then NaN else Num (roundDouble (x / y)))"
| "jdiv _ _ = NaN"

fun jfloor :: "jsnum \<Rightarrow> jsnum" where
  "jfloor (Num x) = Num (of_int \<lfloor>x\<rfloor>)"
| "jfloor NaN = NaN"

text \<open>A decimal literal of the source denotes the double nearest to it.\<close>

definition lit :: "rat \<Rightarrow> jsnum" where
  "lit x = Num (roundDouble x)"

text \<open>
  Storing a number into a \<open>Uint8Array\<close>: \<open>NaN\<close> becomes 0, anything else is truncated
  towards zero and reduced modulo 256.
\<close>

fun toUint8 :: "jsnum \<Rightarrow> 8 word" where
  "toUint8 (Num x) = word_of_int (if 0 \<le> x then \<lfloor>x\<rfloor> else \<lceil>x\<rceil>)"
| "toUint8 NaN = 0"

definition byteNum :: "8 word \<Rightarrow> jsnum" where
  "byteNum w = Num (of_nat (unat w))"

text \<open>Reading element \<open>i\<close> of a typed array; out of range the result is \<open>undefined\<close>.\<close>

definition rd :: "8 word list \<Rightarrow> nat \<Rightarrow> jsnum" where
  "rd xs i = (if i < length xs then byteNum (xs ! i) else NaN)"

text \<open>\<open>Math.floor(a / b)\<close> for a non-negative integer \<open>a\<close> and a positive integer \<open>b\<close>.\<close>

definition floorDiv :: "nat \<Rightarrow> nat \<Rightarrow> nat" where
  "floorDiv a b = nat \<lfloor>roundDouble (of_nat a / of_nat b)\<rfloor>"

section \<open>The pixel processor (\<open>WASMProcessor\<close>)\<close>

text \<open>
  \<open>WASMProcessor.setupJSFallback\<close> installs \<open>processPixels\<close> and
  \<open>calculateBrightness\<close>. The brightness expression
  \<open>(r * 0.299 + g * 0.587 + b * 0.114) / 255\<close> occurs three times in the source (in
  \<open>processPixels\<close>, in \<open>calculateBrightness\<close> and in \<open>renderASCII\<close>); it is modelled once.
  Likewise \<open>Math.floor(brightness * (asciiChars.length - 1))\<close>, the selection of the glyph.
\<close>

definition calculateBrightness :: "jsnum \<Rightarrow> jsnum \<Rightarrow> jsnum \<Rightarrow> jsnum" where
  "calculateBrightness r g b =
    jdiv (jadd (jadd (jmul r (lit (299 / 1000))) (jmul g (lit (587 / 1000))))
               (jmul b (lit (114 / 1000))))
         (Num 255)"

definition charIndexOf :: "jsnum \<Rightarrow> string \<Rightarrow> jsnum" where
  "charIndexOf brightness asciiChars =
    jfloor (jmul brightness (jsub (Num (of_nat (length asciiChars))) (Num 1)))"

text \<open>
  The two inner loops of \<open>processPixels\<close> accumulate \<open>r\<close>, \<open>g\<close>, \<open>b\<close> and \<open>count\<close> over
  the pixels of one cell; \<open>samplePixel\<close> is the loop body.
\<close>

type_synonym acc = "jsnum \<times> jsnum \<times> jsnum \<times> nat"

definition samplePixel :: "8 word list \<Rightarrow> nat \<Rightarrow> nat \<Rightarrow> nat \<Rightarrow> nat \<Rightarrow> acc \<Rightarrow> acc" where
  "samplePixel pixels width height px py =
    (\<lambda>(r, g, b, count).
       if px < width \<and> py < height then
         let idx = (py * width + px) * 4
         in (jadd r (rd pixels idx), jadd g (rd pixels (idx + 1)),
             jadd b (rd pixels (idx + 2)), count + 1)
       else (r, g, b, count))"

definition sampleCell :: "8 word list \<Rightarrow> nat \<Rightarrow> nat \<Rightarrow> nat \<Rightarrow> nat \<Rightarrow> nat \<Rightarrow> acc" where
  "sampleCell pixels width height charSize cx cy =
    fold (\<lambda>y. fold (\<lambda>x. samplePixel pixels width height (cx * charSize + x) (cy * charSize + y))
                  [0..<charSize])
         [0..<charSize] (Num 0, Num 0, Num 0, 0)"

text \<open>
  The body of the loop over \<open>cx\<close>: sample the cell and, if at least one pixel was
  sampled, store the three means and the glyph index. The means are read back from the
  output array (after their conversion to bytes) to compute the brightness.
\<close>

definition processCell ::
  "8 word list \<Rightarrow> nat \<Rightarrow> nat \<Rightarrow> nat \<Rightarrow> string \<Rightarrow> nat \<Rightarrow> nat \<Rightarrow> nat \<Rightarrow> 8 word list \<Rightarrow> 8 word list" where
  "processCell pixels width height charSize asciiChars charWidth cy cx output =
    (case sampleCell pixels width height charSize cx cy of
       (r, g, b, count) \<Rightarrow>
         if count > 0 then
           let outIdx = (cy * charWidth + cx) * 4;
               output1 = output[outIdx := toUint8 (jfloor (jdiv r (Num (of_nat count))))];
               output2 = output1[outIdx + 1 := toUint8 (jfloor (jdiv g (Num (of_nat count))))];
               output3 = output2[outIdx + 2 := toUint8 (jfloor (jdiv b (Num (of_nat count))))];
               brightness = calculateBrightness (rd output3 outIdx) (rd output3 (outIdx + 1))
                              (rd output3 (outIdx + 2))
           in output3[outIdx + 3 := toUint8 (charIndexOf brightness asciiChars)]
         else output)"

datatype js_error = RangeError | IndexSizeError | NonTermination

text \<open>
  \<open>processPixels\<close>. The options object is passed destructured; every caller supplies all
  three options, so the defaults of the destructuring pattern are never used. The option
  \<open>colorAccuracy\<close> is bound and not used afterwards.

  With \<open>charSize = 0\<close> the grid dimensions are \<open>Infinity\<close> or \<open>NaN\<close>: a frame of height 0
  gives an empty array (the outer loop does not run), a frame of width 0 and positive height
  makes the outer loop run forever, and otherwise \<open>new Uint8Array(Infinity)\<close> throws.
\<close>

definition processPixels ::
  "8 word list \<Rightarrow> nat \<Rightarrow> nat \<Rightarrow> nat \<Rightarrow> jsnum \<Rightarrow> string \<Rightarrow> js_error + 8 word list" where
  "processPixels pixels width height charSize colorAccuracy asciiChars =
    (if charSize = 0 then
       (if height = 0 then Inr []
        else if width = 0 then Inl NonTermination
        else Inl RangeError)
     else
       let charWidth = floorDiv width charSize;
           charHeight = floorDiv height charSize;
           output = replicate (charWidth * charHeight * 4) 0
       in Inr (fold (\<lambda>cy. fold (\<lambda>cx. processCell pixels width height charSize asciiChars
                                      charWidth cy cx)
                               [0..<charWidth])
                    [0..<charHeight] output))"

text \<open>\<open>processVideoFrame\<close>: \<open>null\<close> when the processor is not initialised.\<close>

definition processVideoFrame ::
  "bool \<Rightarrow> 8 word list \<Rightarrow> nat \<Rightarrow> nat \<Rightarrow> nat \<Rightarrow> jsnum \<Rightarrow> string \<Rightarrow> js_error + 8 word list option" where
  "processVideoFrame initialized pixels width height charSize colorAccuracy asciiChars =
    (if \<not> initialized then Inr None
     else case processPixels pixels width height charSize colorAccuracy asciiChars of
            Inl e \<Rightarrow> Inl e
          | Inr output \<Rightarrow> Inr (Some output))"

subsection \<open>The cell sampler as the specification words it\<close>

text \<open>
  The pixel coordinates of the block of cell \<open>(cx, cy)\<close>, those of them inside the frame,
  the value of channel \<open>k\<close> (0, 1, 2 for R, G, B) at a coordinate, and the mean of a channel
  over the in-bounds pixels of a block: the sum divided by the number of pixels sampled.
\<close>

definition blockCoords :: "nat \<Rightarrow> nat \<Rightarrow> nat \<Rightarrow> (nat \<times> nat) list" where
  "blockCoords charSize cx cy =
    concat (map (\<lambda>y. map (\<lambda>x. (cx * charSize + x, cy * charSize + y)) [0..<charSize])
      [0..<charSize])"

definition inBounds :: "nat \<Rightarrow> nat \<Rightarrow> nat \<times> nat \<Rightarrow> bool" where
  "inBounds width height p = (fst p < width \<and> snd p < height)"

definition blockPixels :: "nat \<Rightarrow> nat \<Rightarrow> nat \<Rightarrow> nat \<Rightarrow> nat \<Rightarrow> (nat \<times> nat) list" where
  "blockPixels width height charSize cx cy =
    filter (inBounds width height) (blockCoords charSize cx cy)"

definition channel :: "8 word list \<Rightarrow> nat \<Rightarrow> nat \<Rightarrow> nat \<times> nat \<Rightarrow> nat" where
  "channel pixels width k p = unat (pixels ! ((snd p * width + fst p) * 4 + k))"

definition channelSum :: "8 word list \<Rightarrow> nat \<Rightarrow> nat \<Rightarrow> (nat \<times> nat) list \<Rightarrow> nat" where
  "channelSum pixels width k ps = sum_list (map (channel pixels width k) ps)"

definition cellMean :: "8 word list \<Rightarrow> nat \<Rightarrow> nat \<Rightarrow> nat \<Rightarrow> nat \<Rightarrow> nat \<Rightarrow> nat \<Rightarrow> nat" where
  "cellMean pixels width height charSize k cx cy =
    channelSum pixels width k (blockPixels width height charSize cx cy) div
      length (blockPixels width height charSize cx cy)"

text \<open>
  The count of a cell and the four bytes \<open>processCell\<close> stores for it, as functions of the
  frame alone.
\<close>

definition cellCount :: "8 word list \<Rightarrow> nat \<Rightarrow> nat \<Rightarrow> nat \<Rightarrow> nat \<Rightarrow> nat \<Rightarrow> nat" where
  "cellCount pixels width height charSize cx cy =
    (case sampleCell pixels width height charSize cx cy of (r, g, b, count) \<Rightarrow> count)"

definition cellBytes ::
  "8 word list \<Rightarrow> nat \<Rightarrow> nat \<Rightarrow> nat \<Rightarrow> string \<Rightarrow> nat \<Rightarrow> nat \<Rightarrow> 8 word list" where
  "cellBytes pixels width height charSize asciiChars cx cy =
    (case sampleCell pixels width height charSize cx cy of
       (r, g, b, count) \<Rightarrow>
         let R = toUint8 (jfloor (jdiv r (Num (of_nat count))));
             G = toUint8 (jfloor (jdiv g (Num (of_nat count))));
             B = toUint8 (jfloor (jdiv b (Num (of_nat count))))
         in [R, G, B,
             toUint8 (charIndexOf (calculateBrightness (byteNum R) (byteNum G) (byteNum B))
               asciiChars)])"

section \<open>The converter (\<open>ASCIIConverter\<close>)\<close>

text \<open>
  The canvas is modelled by its size and by what was last painted on it: nothing, the text
  drawn by \<open>renderASCII\<close> (the clear colour and the list of \<open>fillText\<close> calls with their
  fill styles, in drawing order), or the pixels left by the WebGL program. The WebGL
  processor itself is a parameter: a function that either paints or throws (\<open>None\<close>).
\<close>

text \<open>\<open>asciiChars[i]\<close>: \<open>undefined\<close> unless \<open>i\<close> is an index into the string.\<close>

definition charAt :: "string \<Rightarrow> jsnum \<Rightarrow> char option" where
  "charAt str i =
    (case i of
       NaN \<Rightarrow> None
     | Num x \<Rightarrow>
         if of_int \<lfloor>x\<rfloor> = x \<and> 0 \<le> x \<and> x < of_nat (length str) then Some (str ! nat \<lfloor>x\<rfloor>)
         else None)"

record glyph =
  fillStyle :: "jsnum \<times> jsnum \<times> jsnum"
  glyphChar :: "char option"
  posX :: nat
  posY :: nat

datatype render_data = Uint8Array "8 word list" | ImageData "8 word list"

text \<open>
  The body of the loops of \<open>renderASCII\<close>, returning the glyph it draws (if any). A
  \<open>Uint8Array\<close> that is too short for the cell falls into the \<open>else\<close> branch, where its
  \<open>data\<close> property is undefined and nothing is drawn.
\<close>

definition renderCell ::
  "string \<Rightarrow> nat \<Rightarrow> jsnum \<Rightarrow> nat \<Rightarrow> nat \<Rightarrow> render_data \<Rightarrow> nat \<Rightarrow> nat \<Rightarrow> nat \<Rightarrow> nat \<Rightarrow> glyph list" where
  "renderCell asciiChars fontSize colorAccuracy0 canvasWidth canvasHeight data charWidth charHeight y x =
    (let idx = (y * charWidth + x) * 4
     in case data of
          Uint8Array d \<Rightarrow>
            if length d > idx + 3 then
              [\<lparr>fillStyle = (rd d idx, rd d (idx + 1), rd d (idx + 2)),
                glyphChar = charAt asciiChars (rd d (idx + 3)),
                posX = x * fontSize, posY = y * fontSize\<rparr>]
            else []
        | ImageData d \<Rightarrow>
            let sampleX = floorDiv (x * canvasWidth) charWidth;
                sampleY = floorDiv (y * canvasHeight) charHeight;
                sampleIdx = (sampleY * canvasWidth + sampleX) * 4
            in if sampleIdx < length d then
                 let r = rd d sampleIdx;
                     g = rd d (sampleIdx + 1);
                     b = rd d (sampleIdx + 2);
                     brightness = calculateBrightness r g b;
                     charIndex = charIndexOf brightness asciiChars;
                     colorAccuracy = jdiv colorAccuracy0 (Num 100);
                     finalR = jfloor (jadd (jmul r colorAccuracy)
                                (jmul (jmul brightness (Num 255)) (jsub (Num 1) colorAccuracy)));
                     finalG = jfloor (jadd (jmul g colorAccuracy)
                                (jmul (jmul brightness (Num 255)) (jsub (Num 1) colorAccuracy)));
                     finalB = jfloor (jadd (jmul b colorAccuracy)
                                (jmul (jmul brightness (Num 255)) (jsub (Num 1) colorAccuracy)))
                 in [\<lparr>fillStyle = (finalR, finalG, finalB),
                      glyphChar = charAt asciiChars charIndex,
                      posX = x * fontSize, posY = y * fontSize\<rparr>]
               else [])"

datatype surface = Cleared | Text string "glyph list" | Shaded "8 word list"

record canvas =
  width :: nat
  height :: nat
  surface :: surface

record options =
  fontSize :: nat
  density :: nat
  bgColor :: string
  colorAccuracy :: jsnum
  useWebGL :: bool
  useWASM :: bool

record video =
  paused :: bool
  ended :: bool
  videoWidth :: nat
  videoHeight :: nat
  frame :: "8 word list"

record ascii_converter =
  asciiChars :: string
  canvas :: canvas
  webglProcessor :: "(video \<Rightarrow> options \<Rightarrow> 8 word list option) option"
  wasmProcessor :: "bool option"
  currentOptions :: options

text \<open>
  \<open>updateOptions\<close> merges a partial options object into the current one; the controller's
  \<open>updateSettings\<close> passes the four settings of the form.
\<close>

record options_update =
  newFontSize :: "nat option"
  newDensity :: "nat option"
  newBgColor :: "string option"
  newColorAccuracy :: "jsnum option"

definition updateOptions :: "options_update \<Rightarrow> ascii_converter \<Rightarrow> ascii_converter" where
  "updateOptions upd conv =
    (let cur = currentOptions conv
     in conv\<lparr>currentOptions :=
          cur\<lparr>fontSize := case_option (fontSize cur) id (newFontSize upd),
              density := case_option (density cur) id (newDensity upd),
              bgColor := case_option (bgColor cur) id (newBgColor upd),
              colorAccuracy := case_option (colorAccuracy cur) id (newColorAccuracy upd)\<rparr>\<rparr>)"

definition renderASCII :: "ascii_converter \<Rightarrow> render_data \<Rightarrow> nat \<Rightarrow> nat \<Rightarrow> ascii_converter" where
  "renderASCII conv data charWidth charHeight =
    (let opts = currentOptions conv;
         cv = canvas conv;
         drawn = concat (map (\<lambda>y. concat (map (\<lambda>x.
                   renderCell (asciiChars conv) (fontSize opts) (colorAccuracy opts)
                     (width cv) (height cv) data charWidth charHeight y x)
                   [0..<charWidth])) [0..<charHeight])
     in conv\<lparr>canvas := cv\<lparr>surface := Text (bgColor opts) drawn\<rparr>\<rparr>)"

text \<open>The attempt to render with WebGL: \<open>None\<close> when it is disabled, absent or throws.\<close>

definition webglAttempt :: "ascii_converter \<Rightarrow> video \<Rightarrow> 8 word list option" where
  "webglAttempt conv vid =
    (if useWebGL (currentOptions conv) then
       (case webglProcessor conv of
          None \<Rightarrow> None
        | Some p \<Rightarrow> p vid (currentOptions conv))
     else None)"

text \<open>
  \<open>processFrame\<close>. The field \<open>frame\<close> of the video stands for the pixels that
  \<open>drawImage\<close> followed by \<open>getImageData\<close> delivers; \<open>getImageData\<close> throws for an empty
  rectangle. With \<open>fontSize = 0\<close> the grid dimensions are infinite: the pixel processor
  throws, and without it the loops of \<open>renderASCII\<close> do not end.
\<close>

definition resized :: "video \<Rightarrow> canvas" where
  "resized vid = \<lparr>width = videoWidth vid, height = videoHeight vid, surface = Cleared\<rparr>"

definition processFrame :: "ascii_converter \<Rightarrow> video \<Rightarrow> js_error + ascii_converter \<times> bool" where
  "processFrame conv vid =
    (if paused vid \<or> ended vid then Inr (conv, False)
     else
       let opts = currentOptions conv;
           conv1 = conv\<lparr>canvas := resized vid\<rparr>
       in case webglAttempt conv vid of
            Some shaded \<Rightarrow> Inr (conv1\<lparr>canvas := (resized vid)\<lparr>surface := Shaded shaded\<rparr>\<rparr>, True)
          | None \<Rightarrow>
              (if videoWidth vid = 0 \<or> videoHeight vid = 0 then Inl IndexSizeError
               else
                 let processed =
                       (if useWASM opts then
                          (case wasmProcessor conv of
                             None \<Rightarrow> Inr None
                           | Some initialized \<Rightarrow>
                               processVideoFrame initialized (frame vid) (videoWidth vid)
                                 (videoHeight vid) (fontSize opts)
                                 (jdiv (colorAccuracy opts) (Num 100)) (asciiChars conv))
                        else Inr None)
                 in (case processed of
                       Inl e \<Rightarrow> Inl e
                     | Inr processedData \<Rightarrow>
                         if fontSize opts = 0 then Inl NonTermination
                         else
                           let charWidth = floorDiv (videoWidth vid) (fontSize opts);
                               charHeight = floorDiv (videoHeight vid) (fontSize opts);
                               data = (case processedData of
                                         Some output \<Rightarrow> Uint8Array output
                                       | None \<Rightarrow> ImageData (frame vid))
                           in Inr (renderASCII conv1 data charWidth charHeight, True))))"

text \<open>
  The grid as the specification words it: \<open>floor(w / s)\<close> columns and \<open>floor(h / s)\<close> rows of
  cells, listed row by row by the canvas position of each cell's origin.
\<close>

definition gridOrigins :: "nat \<Rightarrow> nat \<Rightarrow> nat \<Rightarrow> (nat \<times> nat) list" where
  "gridOrigins w h s = concat (map (\<lambda>y. map (\<lambda>x. (x * s, y * s)) [0..<w div s]) [0..<h div s])"

section \<open>Video to ASCII converter: capture and export pipeline\<close>

text \<open>
  The export side of the program consists of the class \<open>VideoExporter\<close>
  (file \<open>ascii-converter.js\<close>) and the controller \<open>VideoToASCIIApp\<close> (file \<open>main.js\<close>).
  Both are event driven: every method and every event handler becomes a function from the
  object's fields to the updated fields. What the browser decides (which container types the
  recorder supports, whether constructing or starting the recorder throws, the last chunk the
  recorder flushes when it is stopped) is passed in as an argument. DOM widgets, the audio
  tracks, the export canvas and the playback position of the video element are left out;
  \<open>alert\<close> and the download link are recorded in the lists \<open>alerts\<close> and \<open>downloads\<close>.
\<close>

subsection \<open>Blobs and the media recorder\<close>

record blob =
  bytes :: "8 word list"
  btype :: string

datatype recording_state = Inactive | Recording | Paused

record media_recorder =
  mimeType :: string
  state :: recording_state

record video_exporter =
  mediaRecorder :: "media_recorder option"
  recordedChunks :: "blob list"
  isRecording :: bool

text \<open>The outcome of \<open>new MediaRecorder(...)\<close> followed by \<open>start(100)\<close> inside the \<open>try\<close>.\<close>

datatype sink_start = CtorThrows | StartThrows | Started

definition mimeTypes :: "string list" where
  "mimeTypes =
    [''video/webm;codecs=vp9,opus'',
     ''video/webm;codecs=vp8,opus'',
     ''video/webm;codecs=vp9'',
     ''video/webm;codecs=vp8'',
     ''video/webm'',
     ''video/mp4;codecs=h264,aac'',
     ''video/mp4'']"

definition getSupportedMimeType :: "(string \<Rightarrow> bool) \<Rightarrow> string" where
  "getSupportedMimeType isTypeSupported =
    (case find isTypeSupported mimeTypes of
       Some t \<Rightarrow> t
     | None \<Rightarrow> ''video/webm'')"

text \<open>
  \<open>startExport\<close>: the chunk list is emptied and \<open>isRecording\<close> set before anything else;
  there is no test of the current state. When the constructor throws, the field
  \<open>mediaRecorder\<close> keeps its previous value; when \<open>start\<close> throws, the new (inactive)
  recorder has already been stored.
\<close>

definition startExport ::
  "(string \<Rightarrow> bool) \<Rightarrow> sink_start \<Rightarrow> video_exporter \<Rightarrow> video_exporter \<times> bool" where
  "startExport isTypeSupported outcome ex =
    (let ex1 = ex\<lparr>recordedChunks := [], isRecording := True\<rparr>;
         mt = getSupportedMimeType isTypeSupported
     in case outcome of
          CtorThrows \<Rightarrow> (ex1\<lparr>isRecording := False\<rparr>, False)
        | StartThrows \<Rightarrow>
            (ex1\<lparr>mediaRecorder := Some \<lparr>mimeType = mt, state = Inactive\<rparr>,
                 isRecording := False\<rparr>, False)
        | Started \<Rightarrow>
            (ex1\<lparr>mediaRecorder := Some \<lparr>mimeType = mt, state = Recording\<rparr>\<rparr>, True))"

text \<open>The handlers installed by \<open>startExport\<close>.\<close>

definition ondataavailable :: "blob \<Rightarrow> video_exporter \<Rightarrow> video_exporter" where
  "ondataavailable dat ex =
    (if length (bytes dat) > 0 then ex\<lparr>recordedChunks := recordedChunks ex @ [dat]\<rparr> else ex)"

definition onstop :: "video_exporter \<Rightarrow> video_exporter" where
  "onstop ex = ex\<lparr>isRecording := False\<rparr>"

definition onerror :: "video_exporter \<Rightarrow> video_exporter" where
  "onerror ex = ex\<lparr>isRecording := False\<rparr>"

definition newBlob :: "blob list \<Rightarrow> string \<Rightarrow> blob" where
  "newBlob parts ty = \<lparr>bytes = concat (map bytes parts), btype = ty\<rparr>"

text \<open>
  \<open>stopExport\<close>: \<open>null\<close> when there is no recorder or the recorder is inactive. Otherwise
  \<open>stop()\<close> makes the recorder flush a last chunk (argument \<open>final\<close>, delivered to
  \<open>ondataavailable\<close>) and fire \<open>stop\<close>, whose replaced handler assembles the blob.
\<close>

definition stopExport :: "blob \<Rightarrow> video_exporter \<Rightarrow> video_exporter \<times> blob option" where
  "stopExport final ex =
    (case mediaRecorder ex of
       None \<Rightarrow> (ex, None)
     | Some rec \<Rightarrow>
         if state rec = Inactive then (ex, None)
         else
           let ex1 = ondataavailable final (ex\<lparr>mediaRecorder := Some (rec\<lparr>state := Inactive\<rparr>)\<rparr>);
               b = newBlob (recordedChunks ex1) (mimeType rec)
           in (ex1\<lparr>recordedChunks := [], isRecording := False\<rparr>, Some b))"

definition convertToMP4 :: "(string \<Rightarrow> bool) \<Rightarrow> blob \<Rightarrow> blob" where
  "convertToMP4 isTypeSupported webmBlob = webmBlob"

subsection \<open>The controller\<close>

text \<open>\<open>String.prototype.includes\<close>: the needle occurs somewhere in the string.\<close>

primrec startsWith :: "string \<Rightarrow> string \<Rightarrow> bool" where
  "startsWith s [] = True"
| "startsWith s (c # cs) = (case s of [] \<Rightarrow> False | d # ds \<Rightarrow> d = c \<and> startsWith ds cs)"

primrec str_includes :: "string \<Rightarrow> string \<Rightarrow> bool" where
  "str_includes [] needle = (needle = [])"
| "str_includes (c # cs) needle = (startsWith (c # cs) needle \<or> str_includes cs needle)"

record app =
  videoSrc :: string
  isProcessing :: bool
  isPaused :: bool
  isExporting :: bool
  videoExporter :: video_exporter
  alerts :: "string list"
  downloads :: "(string \<times> blob) list"

definition startProcessing :: "app \<Rightarrow> app" where
  "startProcessing a =
    (if videoSrc a = [] then a else a\<lparr>isProcessing := True, isPaused := False\<rparr>)"

definition app_startExport :: "(string \<Rightarrow> bool) \<Rightarrow> sink_start \<Rightarrow> app \<Rightarrow> app" where
  "app_startExport isTypeSupported outcome a =
    (if isExporting a then a
     else
       let a1 = a\<lparr>isExporting := True\<rparr>;
           (ex, exportStarted) = startExport isTypeSupported outcome (videoExporter a1);
           a2 = a1\<lparr>videoExporter := ex\<rparr>
       in if exportStarted then (if \<not> isProcessing a2 then startProcessing a2 else a2)
          else a2\<lparr>isExporting := False,
                  alerts := alerts a2 @ [''Failed to start export. Please try again.'']\<rparr>)"

definition exportFilename :: "string \<Rightarrow> string" where
  "exportFilename src =
    (if str_includes src ''.mp4'' then ''ascii-video.mp4'' else ''ascii-video.webm'')"

definition finishExport :: "(string \<Rightarrow> bool) \<Rightarrow> blob \<Rightarrow> app \<Rightarrow> app" where
  "finishExport isTypeSupported final a =
    (if \<not> isExporting a then a
     else
       let (ex, res) = stopExport final (videoExporter a);
           a1 = a\<lparr>videoExporter := ex\<rparr>;
           a2 = (case res of
                   None \<Rightarrow> a1
                 | Some b \<Rightarrow>
                     let finalBlob = convertToMP4 isTypeSupported b;
                         filename = exportFilename (videoSrc a1)
                     in a1\<lparr>downloads := downloads a1 @ [(filename, finalBlob)]\<rparr>)
       in a2\<lparr>isExporting := False\<rparr>)"

text \<open>The recorder's \<open>error\<close> event as the controller sees it: only the exporter's handler runs.\<close>

definition app_onerror :: "app \<Rightarrow> app" where
  "app_onerror a = a\<lparr>videoExporter := onerror (videoExporter a)\<rparr>"

text \<open>The container family named by a mime type, and the extension of a file name.\<close>

definition container :: "string \<Rightarrow> string" where
  "container mt = takeWhile (\<lambda>c. c \<noteq> CHR '';'') (drop 6 mt)"

definition extension :: "string \<Rightarrow> string" where
  "extension name = rev (takeWhile (\<lambda>c. c \<noteq> CHR ''.'') (rev name))"

section \<open>Concrete inputs used in the examples\<close>

definition defaultRamp :: string where
  "defaultRamp = '' .:-=+*#%@''"

text \<open>A ramp of 300 glyphs, and frames of one gray and of one white pixel.\<close>

definition longRamp :: string where
  "longRamp = replicate 300 CHR ''#''"

definition grayPixel :: "8 word list" where
  "grayPixel = [128, 128, 128, 255]"

definition whitePixel :: "8 word list" where
  "whitePixel = [255, 255, 255, 255]"

text \<open>States of the exporter and of the controller.\<close>

definition chunkA :: blob where
  "chunkA = \<lparr>bytes = [26, 69, 223, 163], btype = ''video/webm''\<rparr>"

definition emptyChunk :: blob where
  "emptyChunk = \<lparr>bytes = [], btype = ''''\<rparr>"

definition anyType :: "string \<Rightarrow> bool" where
  "anyType t = True"

definition onlyMp4 :: "string \<Rightarrow> bool" where
  "onlyMp4 t = (t = ''video/mp4;codecs=h264,aac'' \<or> t = ''video/mp4'')"

definition recordingExporter :: video_exporter where
  "recordingExporter =
    \<lparr>mediaRecorder = Some \<lparr>mimeType = ''video/webm;codecs=vp9,opus'', state = Recording\<rparr>,
     recordedChunks = [chunkA],
     isRecording = True\<rparr>"

definition idleExporter :: video_exporter where
  "idleExporter = \<lparr>mediaRecorder = None, recordedChunks = [], isRecording = False\<rparr>"

definition exportingApp :: app where
  "exportingApp =
    \<lparr>videoSrc = ''blob:http://localhost:8000/6f1c2a9e-0d47-4c55-9a3b-2f8e7d1b4c60'',
     isProcessing = True, isPaused = False, isExporting = True,
     videoExporter = recordingExporter, alerts = [], downloads = []\<rparr>"

definition failedApp :: app where
  "failedApp =
    exportingApp\<lparr>videoExporter :=
      recordingExporter\<lparr>mediaRecorder :=
        Some \<lparr>mimeType = ''video/webm;codecs=vp9,opus'', state = Inactive\<rparr>\<rparr>\<rparr>"

definition safariApp :: app where
  "safariApp =
    exportingApp\<lparr>videoExporter :=
      recordingExporter\<lparr>mediaRecorder :=
        Some \<lparr>mimeType = getSupportedMimeType onlyMp4, state = Recording\<rparr>\<rparr>\<rparr>"


text \<open>A frame of two by two pixels, all of the colour (200, 100, 50).\<close>

definition uniformFrame :: "8 word list" where
  "uniformFrame =
    [200, 100, 50, 255, 200, 100, 50, 255,
     200, 100, 50, 255, 200, 100, 50, 255]"

text \<open>A frame of one red pixel, and the two frames as the current frame of a playing video.\<close>

definition redPixel :: "8 word list" where
  "redPixel = [255, 0, 0, 255]"

definition redVideo :: video where
  "redVideo = \<lparr>paused = False, ended = False, videoWidth = 1, videoHeight = 1, frame = redPixel\<rparr>"

definition uniformVideo :: video where
  "uniformVideo =
    \<lparr>paused = False, ended = False, videoWidth = 2, videoHeight = 2, frame = uniformFrame\<rparr>"

text \<open>
  A converter without WebGL, with the pixel processor initialised, font size 1 and colour
  accuracy 0; the same converter after it has drawn the uniform frame at font size 1; and the
  settings update that changes the font size to 2.
\<close>

definition grayConverter :: ascii_converter where
  "grayConverter =
    \<lparr>asciiChars = defaultRamp,
     canvas = \<lparr>width = 0, height = 0, surface = Cleared\<rparr>,
     webglProcessor = None,
     wasmProcessor = Some True,
     currentOptions = \<lparr>fontSize = 1, density = 3, bgColor = ''#000000'',
       colorAccuracy = Num 0, useWebGL = False, useWASM = True\<rparr>\<rparr>"

definition staleConverter :: ascii_converter where
  "staleConverter =
    grayConverter\<lparr>canvas :=
      \<lparr>width = 2, height = 2,
       surface = Text ''#000000''
         [\<lparr>fillStyle = (Num 200, Num 100, Num 50), glyphChar = Some CHR ''='', posX = 0, posY = 0\<rparr>,
          \<lparr>fillStyle = (Num 200, Num 100, Num 50), glyphChar = Some CHR ''='', posX = 1, posY = 0\<rparr>,
          \<lparr>fillStyle = (Num 200, Num 100, Num 50), glyphChar = Some CHR ''='', posX = 0, posY = 1\<rparr>,
          \<lparr>fillStyle = (Num 200, Num 100, Num 50), glyphChar = Some CHR ''='', posX = 1, posY = 1\<rparr>]\<rparr>\<rparr>"

definition fontSizeTwo :: options_update where
  "fontSizeTwo =
    \<lparr>newFontSize = Some 2, newDensity = None, newBgColor = None, newColorAccuracy = None\<rparr>"

section \<open>Properties of double rounding\<close>

text \<open>
  Powers of two with an integer exponent, and their order.
\<close>

lemma pow2_powi: "pow2 e = 2 powi e"
  by (simp add: pow2_def power_int_def inverse_eq_divide power_one_over)

lemma pow2_pos [simp]: "0 < pow2 e"
  by (simp add: pow2_powi)

lemma pow2_neq0 [simp]: "pow2 e \<noteq> 0"
  by (simp add: pow2_powi)

lemma pow2_nonneg [simp]: "0 \<le> pow2 e"
  by (simp add: pow2_powi)

lemma pow2_add: "pow2 (a + b) = pow2 a * pow2 b"
  by (simp add: pow2_powi power_int_add)

lemma pow2_diff: "pow2 (a - b) = pow2 a / pow2 b"
  by (simp add: pow2_powi power_int_diff)

lemma pow2_mono: "a \<le> b \<Longrightarrow> pow2 a \<le> pow2 b"
  by (simp add: pow2_powi power_int_increasing)

lemma pow2_nat: "0 \<le> e \<Longrightarrow> pow2 e = of_int (2 ^ nat e)"
  by (simp add: pow2_def)

lemma pow2_0 [simp]: "pow2 0 = 1"
  by (simp add: pow2_def)

lemma pow2_Suc: "pow2 (e + 1) = 2 * pow2 e"
proof -
  have "pow2 1 = 2" by (simp add: pow2_def)
  then show ?thesis by (simp add: pow2_add)
qed

subsection \<open>Rounding to an integer\<close>

text \<open>
  Rounding to the nearest integer, ties to even: the result is the floor or the floor plus
  one, integers are fixed, the function is monotone and errs by at most one half.
\<close>

lemma rte_cases:
  "roundTiesToEven y = \<lfloor>y\<rfloor> \<or> roundTiesToEven y = \<lfloor>y\<rfloor> + 1"
  by (simp add: roundTiesToEven_def Let_def)

lemma rte_of_int [simp]: "roundTiesToEven (of_int n) = n"
  by (simp add: roundTiesToEven_def)

lemma rte_ge_floor: "\<lfloor>y\<rfloor> \<le> roundTiesToEven y"
  using rte_cases [of y] by auto

lemma rte_le_ceil: "roundTiesToEven y \<le> \<lfloor>y\<rfloor> + 1"
  using rte_cases [of y] by auto

lemma rte_mono:
  assumes "x \<le> y"
  shows "roundTiesToEven x \<le> roundTiesToEven y"
proof (cases "\<lfloor>x\<rfloor> = \<lfloor>y\<rfloor>")
  case True
  with assms show ?thesis
    by (auto simp add: roundTiesToEven_def Let_def)
next
  case False
  with assms have "\<lfloor>x\<rfloor> + 1 \<le> \<lfloor>y\<rfloor>"
    using floor_mono [of x y] by linarith
  with rte_le_ceil [of x] rte_ge_floor [of y] show ?thesis
    by linarith
qed

lemma rte_error:
  "\<bar>of_int (roundTiesToEven y) - y\<bar> \<le> 1 / 2"
proof -
  define d where "d = y - of_int \<lfloor>y\<rfloor>"
  have d: "0 \<le> d" "d < 1"
    unfolding d_def by linarith+
  have "roundTiesToEven y = (if d < 1 / 2 then \<lfloor>y\<rfloor> else if 1 / 2 < d then \<lfloor>y\<rfloor> + 1
      else if even \<lfloor>y\<rfloor> then \<lfloor>y\<rfloor> else \<lfloor>y\<rfloor> + 1)"
    by (simp add: roundTiesToEven_def Let_def d_def)
  moreover have "y = of_int \<lfloor>y\<rfloor> + d"
    by (simp add: d_def)
  ultimately show ?thesis
    using d by (auto simp add: abs_if split: if_splits)
qed

lemma rte_ge_int: "of_int n \<le> y \<Longrightarrow> n \<le> roundTiesToEven y"
  using rte_mono [of "of_int n" y] by simp

lemma rte_le_int: "y \<le> of_int n \<Longrightarrow> roundTiesToEven y \<le> n"
  using rte_mono [of y "of_int n"] by simp

subsection \<open>The binary exponent\<close>

text \<open>
  \<open>ilog2\<close> computes the binary exponent: it is the unique \<open>e\<close> with
  \<open>2 ^ e \<le> x < 2 ^ (e + 1)\<close>.
\<close>

lemma ilog2_bounds:
  assumes "0 < x"
  shows "pow2 (ilog2 x) \<le> x \<and> x < pow2 (ilog2 x + 1)"
proof -
  obtain a b where q: "quotient_of x = (a, b)"
    by (cases "quotient_of x")
  then have b: "0 < b" and x: "x = of_int a / of_int b"
    by (auto dest: quotient_of_denom_pos quotient_of_div)
  with assms have a: "0 < a"
    by (simp add: zero_less_divide_iff)
  define la lb where "la = bitlen a" and "lb = bitlen b"
  have la: "1 \<le> la" and lb: "1 \<le> lb"
    using a b bitlen_eq_zero_iff [of a] bitlen_eq_zero_iff [of b]
      bitlen_nonneg [of a] bitlen_nonneg [of b]
    by (auto simp add: la_def lb_def)
  have "2 ^ nat (la - 1) \<le> a" "a < 2 ^ nat la" "2 ^ nat (lb - 1) \<le> b" "b < 2 ^ nat lb"
    using bitlen_bounds [OF a] bitlen_bounds [OF b] by (simp_all add: la_def lb_def)
  then have "rat_of_int (2 ^ nat (la - 1)) \<le> of_int a" "rat_of_int a < of_int (2 ^ nat la)"
    "rat_of_int (2 ^ nat (lb - 1)) \<le> of_int b" "rat_of_int b < of_int (2 ^ nat lb)"
    by (simp_all only: of_int_le_iff of_int_less_iff)
  then have A: "pow2 (la - 1) \<le> of_int a" "of_int a < pow2 la"
    and B: "pow2 (lb - 1) \<le> of_int b" "of_int b < pow2 lb"
    using la lb by (simp_all add: pow2_nat)
  have upper: "x < pow2 (la - lb + 1)"
  proof -
    have "x * of_int b = of_int a"
      using b by (simp add: x)
    also have "\<dots> < pow2 la" by (rule A)
    also have "\<dots> = pow2 (la - lb + 1) * pow2 (lb - 1)"
      by (simp add: pow2_add [symmetric])
    also have "\<dots> \<le> pow2 (la - lb + 1) * of_int b"
      using B(1) by (simp add: mult_left_mono)
    finally show ?thesis
      using b by simp
  qed
  have lower: "pow2 (la - lb - 1) \<le> x"
  proof -
    have "pow2 (la - lb - 1) * of_int b \<le> pow2 (la - lb - 1) * pow2 lb"
      using B(2) by (simp add: mult_left_mono)
    also have "\<dots> = pow2 (la - 1)"
      by (simp add: pow2_add [symmetric])
    also have "\<dots> \<le> of_int a" by (rule A)
    also have "\<dots> = x * of_int b"
      using b by (simp add: x)
    finally show ?thesis
      using b by simp
  qed
  show ?thesis
  proof (cases "pow2 (la - lb) \<le> x")
    case True
    then have "ilog2 x = la - lb"
      by (simp add: ilog2_def q la_def lb_def)
    with True upper show ?thesis by simp
  next
    case False
    then have "ilog2 x = la - lb - 1"
      by (simp add: ilog2_def q la_def lb_def)
    with False lower show ?thesis by simp
  qed
qed

lemma pow2_less_cancel: "pow2 a < pow2 b \<Longrightarrow> a < b"
  using pow2_mono [of b a] by (cases "a < b") auto

lemma ilog2_unique:
  assumes "pow2 e \<le> x" "x < pow2 (e + 1)"
  shows "ilog2 x = e"
proof -
  have "0 < x"
    using assms(1) pow2_pos [of e] by linarith
  from ilog2_bounds [OF this] assms
  have "pow2 e < pow2 (ilog2 x + 1)" "pow2 (ilog2 x) < pow2 (e + 1)"
    by linarith+
  then have "e < ilog2 x + 1" "ilog2 x < e + 1"
    by (auto dest: pow2_less_cancel)
  then show ?thesis by simp
qed

lemma ilog2_mono:
  assumes "0 < x" "x \<le> y"
  shows "ilog2 x \<le> ilog2 y"
proof -
  have "0 < y" using assms by simp
  from ilog2_bounds [OF assms(1)] ilog2_bounds [OF this] assms(2)
  have "pow2 (ilog2 x) < pow2 (ilog2 y + 1)"
    by linarith
  then show ?thesis
    by (auto dest: pow2_less_cancel)
qed


subsection \<open>Rounding to a double\<close>

text \<open>
  Rounding to a double is monotone on the non-negative rationals. Within one binade this is
  the monotonicity of \<open>roundTiesToEven\<close>; across binades the rounded values are separated
  by a power of two.
\<close>

lemma roundDouble_alt:
  "roundDouble x = (if x = 0 then 0 else of_int (roundTiesToEven (x / pow2 (uexp x))) * pow2 (uexp x))"
  by (simp add: roundDouble_def)

lemma roundDouble_0 [simp]: "roundDouble 0 = 0"
  by (simp add: roundDouble_def)

lemma scaled_round_le:
  assumes "x \<le> pow2 (E + 1)"
  shows "of_int (roundTiesToEven (x / pow2 (E - 52))) * pow2 (E - 52) \<le> pow2 (E + 1)"
proof -
  have "x / pow2 (E - 52) \<le> pow2 (E + 1) / pow2 (E - 52)"
    using assms by (intro divide_right_mono pow2_nonneg)
  also have "\<dots> = pow2 53"
    by (simp add: pow2_diff [symmetric])
  also have "\<dots> = of_int (2 ^ 53)"
    by (simp add: pow2_def)
  finally have "roundTiesToEven (x / pow2 (E - 52)) \<le> 2 ^ 53"
    by (rule rte_le_int)
  then have "rat_of_int (roundTiesToEven (x / pow2 (E - 52))) \<le> of_int (2 ^ 53)"
    by (simp only: of_int_le_iff)
  also have "rat_of_int (2 ^ 53) = pow2 53"
    by (simp add: pow2_def)
  finally have "of_int (roundTiesToEven (x / pow2 (E - 52))) * pow2 (E - 52)
      \<le> pow2 53 * pow2 (E - 52)"
    by (simp add: mult_right_mono)
  also have "\<dots> = pow2 (E + 1)"
    by (simp add: pow2_add [symmetric] add.commute)
  finally show ?thesis .
qed

lemma scaled_round_ge:
  assumes "pow2 E \<le> x"
  shows "pow2 E \<le> of_int (roundTiesToEven (x / pow2 (E - 52))) * pow2 (E - 52)"
proof -
  have "pow2 52 = pow2 E / pow2 (E - 52)"
    by (simp add: pow2_diff [symmetric])
  also have "\<dots> \<le> x / pow2 (E - 52)"
    using assms by (intro divide_right_mono pow2_nonneg)
  finally have "of_int (2 ^ 52) \<le> x / pow2 (E - 52)"
    by (simp add: pow2_def)
  then have "2 ^ 52 \<le> roundTiesToEven (x / pow2 (E - 52))"
    by (rule rte_ge_int)
  then have "rat_of_int (2 ^ 52) \<le> of_int (roundTiesToEven (x / pow2 (E - 52)))"
    by (simp only: of_int_le_iff)
  moreover have "rat_of_int (2 ^ 52) = pow2 52"
    by (simp add: pow2_def)
  ultimately have "pow2 52 * pow2 (E - 52)
      \<le> of_int (roundTiesToEven (x / pow2 (E - 52))) * pow2 (E - 52)"
    by (simp add: mult_right_mono)
  then show ?thesis
    by (simp add: pow2_add [symmetric])
qed

lemma roundDouble_mono_pos:
  assumes "0 < x" "x \<le> y"
  shows "roundDouble x \<le> roundDouble y"
proof -
  have y: "0 < y" using assms by simp
  define ex ey where "ex = max (ilog2 x) (- 1022)" and "ey = max (ilog2 y) (- 1022)"
  have ux: "uexp x = ex - 52" and uy: "uexp y = ey - 52"
    using assms y by (simp_all add: uexp_def ex_def ey_def)
  have le: "ex \<le> ey"
    using ilog2_mono [OF assms] by (auto simp add: ex_def ey_def)
  have fx: "roundDouble x = of_int (roundTiesToEven (x / pow2 (ex - 52))) * pow2 (ex - 52)"
    and fy: "roundDouble y = of_int (roundTiesToEven (y / pow2 (ey - 52))) * pow2 (ey - 52)"
    using assms y by (simp_all add: roundDouble_alt ux uy)
  show ?thesis
  proof (cases "ex = ey")
    case True
    have "x / pow2 (ey - 52) \<le> y / pow2 (ey - 52)"
      using assms(2) by (intro divide_right_mono pow2_nonneg)
    then have "roundTiesToEven (x / pow2 (ey - 52)) \<le> roundTiesToEven (y / pow2 (ey - 52))"
      by (rule rte_mono)
    then have "rat_of_int (roundTiesToEven (x / pow2 (ey - 52)))
        \<le> of_int (roundTiesToEven (y / pow2 (ey - 52)))"
      by (simp only: of_int_le_iff)
    then show ?thesis
      by (simp add: fx fy True mult_right_mono)
  next
    case False
    with le have lt: "ex < ey" by simp
    then have ey: "ey = ilog2 y"
      by (auto simp add: ex_def ey_def)
    have "x < pow2 (ilog2 x + 1)"
      using ilog2_bounds [OF assms(1)] by simp
    also have "\<dots> \<le> pow2 (ex + 1)"
      by (rule pow2_mono) (simp add: ex_def)
    finally have "roundDouble x \<le> pow2 (ex + 1)"
      unfolding fx by (intro scaled_round_le) simp
    also have "\<dots> \<le> pow2 ey"
      using lt by (intro pow2_mono) simp
    also have "\<dots> \<le> roundDouble y"
      unfolding fy using ilog2_bounds [OF y] by (intro scaled_round_ge) (simp add: ey)
    finally show ?thesis .
  qed
qed

lemma roundDouble_nonneg:
  assumes "0 \<le> x"
  shows "0 \<le> roundDouble x"
proof (cases "x = 0")
  case False
  with assms have "0 < x" by simp
  then have "0 \<le> x / pow2 (uexp x)"
    by (intro divide_nonneg_nonneg pow2_nonneg) simp
  then have "0 \<le> roundTiesToEven (x / pow2 (uexp x))"
    using rte_ge_int [of 0] by simp
  then show ?thesis
    by (simp add: roundDouble_alt)
qed simp

lemma roundDouble_mono:
  assumes "0 \<le> x" "x \<le> y"
  shows "roundDouble x \<le> roundDouble y"
proof (cases "x = 0")
  case True
  with assms show ?thesis
    by (simp add: roundDouble_nonneg)
next
  case False
  with assms show ?thesis
    by (intro roundDouble_mono_pos) simp_all
qed

text \<open>
  A rational whose scaled value is an integer is a double; in particular every natural
  number up to \<open>2 ^ 53\<close>.
\<close>

lemma roundDouble_exact:
  assumes "x / pow2 (uexp x) = of_int m"
  shows "roundDouble x = x"
proof (cases "x = 0")
  case False
  have "roundDouble x = of_int m * pow2 (uexp x)"
    using False by (simp add: roundDouble_alt assms)
  also have "\<dots> = x"
    using assms pow2_pos [of "uexp x"] by (simp add: field_simps)
  finally show ?thesis .
qed simp


lemma ilog2_1: "ilog2 1 = 0"
  by (rule ilog2_unique) (simp_all add: pow2_def)

lemma roundDouble_of_nat:
  assumes "n \<le> 2 ^ 53"
  shows "roundDouble (of_nat n) = of_nat n"
proof (cases "n = 0")
  case False
  define x :: rat where "x = of_nat n"
  have x1: "1 \<le> x"
    using False by (simp add: x_def)
  have "(of_nat n :: rat) \<le> of_nat (2 ^ 53)"
    using assms by (simp only: of_nat_le_iff)
  then have x53: "x \<le> pow2 53"
    by (simp add: x_def pow2_def)
  define e where "e = ilog2 x"
  have b: "pow2 e \<le> x" "x < pow2 (e + 1)"
    using ilog2_bounds [of x] x1 by (simp_all add: e_def)
  have e0: "0 \<le> e"
    using ilog2_mono [of 1 x] x1 by (simp add: e_def ilog2_1)
  have "pow2 e \<le> pow2 53"
    using b(1) x53 by simp
  moreover have "pow2 54 = 2 * pow2 53"
    by (simp add: pow2_def)
  ultimately have "pow2 e < pow2 54"
    using pow2_pos [of 53] by linarith
  then have e53: "e \<le> 53"
    using pow2_less_cancel [of e 54] by simp
  have u: "uexp x = e - 52"
    using x1 e0 by (simp add: uexp_def e_def)
  have "\<exists>m. x / pow2 (e - 52) = of_int m"
  proof (cases "e = 53")
    case True
    with b(1) x53 have "x = pow2 53" by simp
    then have "x / pow2 (e - 52) = of_int (2 ^ 52)"
      by (simp add: True pow2_def)
    then show ?thesis ..
  next
    case False
    with e53 have "0 \<le> 52 - e" by simp
    then have "pow2 (52 - e) = of_int (2 ^ nat (52 - e))"
      by (rule pow2_nat)
    moreover have "x / pow2 (e - 52) = x * pow2 (52 - e)"
      using pow2_diff [of 0 "e - 52"] by (simp add: field_simps)
    ultimately have "x / pow2 (e - 52) = of_int (int n * 2 ^ nat (52 - e))"
      by (simp add: x_def)
    then show ?thesis ..
  qed
  then obtain m where "x / pow2 (uexp x) = of_int m"
    by (auto simp add: u)
  then have "roundDouble x = x"
    by (rule roundDouble_exact)
  then show ?thesis
    by (simp add: x_def)
qed simp

text \<open>
  The rounding error is at most half a unit in the last place, which for a normal number is
  at most \<open>2 ^ (- 53)\<close> times its magnitude. Hence \<open>Math.floor(a / b)\<close> is the integer quotient
  for all natural numbers \<open>a < 2 ^ 53\<close> and \<open>b > 0\<close>: the quotient cannot be rounded up to
  the next integer.
\<close>

lemma roundDouble_error:
  "\<bar>roundDouble x - x\<bar> \<le> pow2 (uexp x) / 2"
proof (cases "x = 0")
  case False
  define p where "p = pow2 (uexp x)"
  have p: "0 < p" by (simp add: p_def)
  have "roundDouble x - x = (of_int (roundTiesToEven (x / p)) - x / p) * p"
    using False p by (simp add: roundDouble_alt p_def field_simps)
  then have "\<bar>roundDouble x - x\<bar> = \<bar>of_int (roundTiesToEven (x / p)) - x / p\<bar> * p"
    using p by (simp add: abs_mult)
  also have "\<dots> \<le> 1 / 2 * p"
    using p by (intro mult_right_mono rte_error) simp
  finally show ?thesis
    by (simp add: p_def)
qed simp

lemma roundDouble_relative:
  assumes "pow2 (- 1022) \<le> x"
  shows "roundDouble x \<le> x + x * pow2 (- 53)"
proof -
  have x: "0 < x"
    using assms pow2_pos [of "- 1022"] by linarith
  have "- 1022 \<le> ilog2 x"
  proof -
    have "pow2 (- 1022) < pow2 (ilog2 x + 1)"
      using ilog2_bounds [OF x] assms by linarith
    then show ?thesis
      by (auto dest: pow2_less_cancel)
  qed
  then have "uexp x = ilog2 x - 52"
    using x by (simp add: uexp_def)
  then have "pow2 (uexp x) = pow2 (ilog2 x) * pow2 (- 52)"
    by (simp add: pow2_add [symmetric])
  also have "\<dots> \<le> x * pow2 (- 52)"
    using ilog2_bounds [OF x] by (intro mult_right_mono) simp_all
  finally have "pow2 (uexp x) / 2 \<le> x * pow2 (- 52) / 2"
    by simp
  also have "\<dots> = x * pow2 (- 53)"
    by (simp add: pow2_def)
  finally show ?thesis
    using roundDouble_error [of x] by linarith
qed

lemma ilog2_pow2: "ilog2 (pow2 e) = e"
  by (rule ilog2_unique) (simp_all add: pow2_Suc)

lemma roundDouble_min_normal: "roundDouble (pow2 (- 1022)) = pow2 (- 1022)"
proof -
  have "uexp (pow2 (- 1022)) = - 1074"
    by (simp add: uexp_def ilog2_pow2)
  then have "pow2 (- 1022) / pow2 (uexp (pow2 (- 1022))) = pow2 52"
    using pow2_diff [of "- 1022" "- 1074"] by simp
  also have "\<dots> = of_int (2 ^ 52)"
    by (simp add: pow2_def)
  finally show ?thesis
    by (rule roundDouble_exact)
qed

lemma floor_roundDouble_div:
  fixes a b :: nat
  assumes "0 < b" "a < 2 ^ 53"
  shows "\<lfloor>roundDouble (of_nat a / of_nat b)\<rfloor> = int (a div b)"
proof -
  define q where "q = a div b"
  define x :: rat where "x = of_nat a / of_nat b"
  have x0: "0 \<le> x" by (simp add: x_def)
  have qa: "q \<le> a" by (simp add: q_def)
  have qx: "of_nat q \<le> x"
  proof -
    have "q * b \<le> a" by (simp add: q_def)
    then have "(of_nat (q * b) :: rat) \<le> of_nat a"
      by (simp only: of_nat_le_iff)
    then show ?thesis
      using assms(1) by (simp add: x_def pos_le_divide_eq)
  qed
  have lower: "of_nat q \<le> roundDouble x"
  proof -
    have "roundDouble (of_nat q) \<le> roundDouble x"
      using qx by (intro roundDouble_mono) simp_all
    moreover have "roundDouble (of_nat q) = of_nat q"
      using qa assms(2) by (intro roundDouble_of_nat) simp
    ultimately show ?thesis by simp
  qed
  have upper: "roundDouble x < of_nat q + 1"
  proof (cases "a = 0")
    case True
    then show ?thesis by (simp add: x_def q_def)
  next
    case False
    have "a < (q + 1) * b"
      using assms(1) by (simp add: q_def dividend_less_div_times)
    then have "a + 1 \<le> (q + 1) * b" by simp
    then have "(of_nat (a + 1) :: rat) \<le> of_nat ((q + 1) * b)"
      by (simp only: of_nat_le_iff)
    then have xq: "x + 1 / of_nat b \<le> of_nat q + 1"
      using assms(1) by (simp add: x_def field_simps)
    have "(of_nat a :: rat) < of_nat (2 ^ 53)"
      using assms(2) by (simp only: of_nat_less_iff)
    then have a53: "of_nat a * pow2 (- 53) < (1 :: rat)"
      by (simp add: pow2_def)
    have small: "x * pow2 (- 53) < 1 / of_nat b"
    proof -
      have "x * pow2 (- 53) = (of_nat a * pow2 (- 53)) / of_nat b"
        by (simp add: x_def)
      also have "\<dots> < 1 / of_nat b"
        using a53 assms(1) by (intro divide_strict_right_mono) simp_all
      finally show ?thesis .
    qed
    show ?thesis
    proof (cases "pow2 (- 1022) \<le> x")
      case True
      then have "roundDouble x \<le> x + x * pow2 (- 53)"
        by (rule roundDouble_relative)
      with small xq show ?thesis by linarith
    next
      case False
      then have "roundDouble x \<le> roundDouble (pow2 (- 1022))"
        using x0 by (intro roundDouble_mono) simp_all
      also have "\<dots> = pow2 (- 1022)"
        by (rule roundDouble_min_normal)
      also have "\<dots> \<le> pow2 (- 1)"
        by (rule pow2_mono) simp
      also have "\<dots> < 1"
        by (simp add: pow2_def)
      finally have "roundDouble x < 1" .
      moreover have "(0 :: rat) \<le> of_nat q" by simp
      ultimately show ?thesis by linarith
    qed
  qed
  have "\<lfloor>roundDouble x\<rfloor> = int q"
    using lower upper by (simp add: floor_unique)
  then show ?thesis
    by (simp add: x_def q_def)
qed

section \<open>Properties of the pixel processor\<close>

text \<open>
  The two nested loops over a block are one fold over the list of its coordinates. On a
  well-formed frame the accumulators hold the exact sums over the in-bounds coordinates, as
  long as the sums stay below \<open>2 ^ 53\<close>.
\<close>

lemma fold_nested:
  "fold (\<lambda>y. fold (\<lambda>x. f (g x y)) xs) ys a = fold f (concat (map (\<lambda>y. map (\<lambda>x. g x y) xs) ys)) a"
  by (induction ys arbitrary: a) (simp_all add: fold_map comp_def)

lemma sampleCell_fold:
  "sampleCell pix w h s cx cy =
     fold (\<lambda>p. samplePixel pix w h (fst p) (snd p)) (blockCoords s cx cy)
       (Num 0, Num 0, Num 0, 0)"
  unfolding sampleCell_def blockCoords_def
  using fold_nested [of "\<lambda>p. samplePixel pix w h (fst p) (snd p)"
      "\<lambda>x y. (cx * s + x, cy * s + y)"]
  by simp

lemma jadd_nat:
  assumes "a + v \<le> 2 ^ 53"
  shows "jadd (Num (of_nat a)) (Num (of_nat v)) = Num (of_nat (a + v))"
  using roundDouble_of_nat [OF assms] by simp

lemma rd_in: "i < length xs \<Longrightarrow> rd xs i = Num (of_nat (unat (xs ! i)))"
  by (simp add: rd_def byteNum_def)

lemma unat_byte_le: "unat (w :: 8 word) \<le> 255"
  using unsigned_less [of w, where ?'a = nat] by simp

lemma channel_le: "channel pix w k p \<le> 255"
  by (simp add: channel_def unat_byte_le)

lemma samplePixel_in:
  assumes wf: "length pix = w * h * 4"
    and inb: "inBounds w h p"
    and ra: "ra + 255 \<le> 2 ^ 53" and ga: "ga + 255 \<le> 2 ^ 53" and ba: "ba + 255 \<le> 2 ^ 53"
  shows "samplePixel pix w h (fst p) (snd p)
           (Num (of_nat ra), Num (of_nat ga), Num (of_nat ba), c) =
         (Num (of_nat (ra + channel pix w 0 p)),
          Num (of_nat (ga + channel pix w 1 p)),
          Num (of_nat (ba + channel pix w 2 p)), c + 1)"
proof -
  obtain px py where p: "p = (px, py)" by (cases p)
  with inb have b: "px < w" "py < h"
    by (simp_all add: inBounds_def)
  have "py * w + px < h * w"
  proof -
    have "py * w + px < py * w + w" using b by simp
    also have "\<dots> = (py + 1) * w" by simp
    also have "\<dots> \<le> h * w"
      using b(2) by (intro mult_le_mono1) simp
    finally show ?thesis .
  qed
  then have idx: "(py * w + px) * 4 + 3 < length pix"
    by (simp add: wf mult.commute)
  have c0: "channel pix w 0 p \<le> 255" and c1: "channel pix w 1 p \<le> 255"
    and c2: "channel pix w 2 p \<le> 255"
    by (rule channel_le)+
  have r0: "rd pix ((py * w + px) * 4) = Num (of_nat (channel pix w 0 p))"
    and r1: "rd pix ((py * w + px) * 4 + 1) = Num (of_nat (channel pix w 1 p))"
    and r2: "rd pix ((py * w + px) * 4 + 2) = Num (of_nat (channel pix w 2 p))"
    using idx by (simp_all add: rd_def byteNum_def channel_def p)
  have "jadd (Num (of_nat ra)) (rd pix ((py * w + px) * 4)) =
      Num (of_nat (ra + channel pix w 0 p))"
    unfolding r0 using ra c0 by (intro jadd_nat) simp
  moreover have "jadd (Num (of_nat ga)) (rd pix ((py * w + px) * 4 + 1)) =
      Num (of_nat (ga + channel pix w 1 p))"
    unfolding r1 using ga c1 by (intro jadd_nat) simp
  moreover have "jadd (Num (of_nat ba)) (rd pix ((py * w + px) * 4 + 2)) =
      Num (of_nat (ba + channel pix w 2 p))"
    unfolding r2 using ba c2 by (intro jadd_nat) simp
  ultimately show ?thesis
    using b by (simp add: samplePixel_def p Let_def del: jadd.simps)
qed

lemma samplePixel_out:
  "\<not> inBounds w h p \<Longrightarrow> samplePixel pix w h (fst p) (snd p) a = a"
  by (cases a) (auto simp add: samplePixel_def inBounds_def)

lemma sample_fold:
  assumes wf: "length pix = w * h * 4"
  shows "ra + 255 * length ps \<le> 2 ^ 53 \<Longrightarrow> ga + 255 * length ps \<le> 2 ^ 53 \<Longrightarrow>
         ba + 255 * length ps \<le> 2 ^ 53 \<Longrightarrow>
         fold (\<lambda>p. samplePixel pix w h (fst p) (snd p)) ps
           (Num (of_nat ra), Num (of_nat ga), Num (of_nat ba), c) =
         (Num (of_nat (ra + channelSum pix w 0 (filter (inBounds w h) ps))),
          Num (of_nat (ga + channelSum pix w 1 (filter (inBounds w h) ps))),
          Num (of_nat (ba + channelSum pix w 2 (filter (inBounds w h) ps))),
          c + length (filter (inBounds w h) ps))"
proof (induction ps arbitrary: ra ga ba c)
  case Nil
  then show ?case by (simp add: channelSum_def)
next
  case (Cons p ps)
  show ?case
  proof (cases "inBounds w h p")
    case True
    have c0: "channel pix w 0 p \<le> 255" and c1: "channel pix w 1 p \<le> 255"
      and c2: "channel pix w 2 p \<le> 255"
      by (rule channel_le)+
    have step: "samplePixel pix w h (fst p) (snd p)
           (Num (of_nat ra), Num (of_nat ga), Num (of_nat ba), c) =
         (Num (of_nat (ra + channel pix w 0 p)),
          Num (of_nat (ga + channel pix w 1 p)),
          Num (of_nat (ba + channel pix w 2 p)), c + 1)"
      using Cons.prems by (intro samplePixel_in wf True) simp_all
    have "fold (\<lambda>p. samplePixel pix w h (fst p) (snd p)) ps
           (Num (of_nat (ra + channel pix w 0 p)),
            Num (of_nat (ga + channel pix w 1 p)),
            Num (of_nat (ba + channel pix w 2 p)), c + 1) =
      (Num (of_nat (ra + channel pix w 0 p + channelSum pix w 0 (filter (inBounds w h) ps))),
       Num (of_nat (ga + channel pix w 1 p + channelSum pix w 1 (filter (inBounds w h) ps))),
       Num (of_nat (ba + channel pix w 2 p + channelSum pix w 2 (filter (inBounds w h) ps))),
       c + 1 + length (filter (inBounds w h) ps))"
      using Cons.prems c0 c1 c2 by (intro Cons.IH) simp_all
    then show ?thesis
      using True by (simp add: step channelSum_def add.assoc)
  next
    case False
    have "fold (\<lambda>p. samplePixel pix w h (fst p) (snd p)) ps
           (Num (of_nat ra), Num (of_nat ga), Num (of_nat ba), c) =
      (Num (of_nat (ra + channelSum pix w 0 (filter (inBounds w h) ps))),
       Num (of_nat (ga + channelSum pix w 1 (filter (inBounds w h) ps))),
       Num (of_nat (ba + channelSum pix w 2 (filter (inBounds w h) ps))),
       c + length (filter (inBounds w h) ps))"
      using Cons.prems by (intro Cons.IH) simp_all
    then show ?thesis
      using False by (simp add: samplePixel_out)
  qed
qed

lemma length_blockCoords: "length (blockCoords s cx cy) = s * s"
  by (simp add: blockCoords_def length_concat comp_def sum_list_triv)

lemma sampleCell_sums:
  assumes wf: "length pix = w * h * 4"
    and rng: "255 * (s * s) \<le> 2 ^ 53"
  shows "sampleCell pix w h s cx cy =
    (Num (of_nat (channelSum pix w 0 (blockPixels w h s cx cy))),
     Num (of_nat (channelSum pix w 1 (blockPixels w h s cx cy))),
     Num (of_nat (channelSum pix w 2 (blockPixels w h s cx cy))),
     length (blockPixels w h s cx cy))"
  using sample_fold [OF wf, of 0 "blockCoords s cx cy" 0 0 0] rng
  by (simp add: sampleCell_fold length_blockCoords blockPixels_def)


text \<open>
  One cell writes the four bytes of its own block of the output and nothing else; the
  bytes do not depend on the output array.
\<close>

lemma processCell_eq:
  assumes "(cy * cw + cx) * 4 + 3 < length out"
  shows "processCell pix w h s ramp cw cy cx out =
    (if cellCount pix w h s cx cy > 0 then
       (let i = (cy * cw + cx) * 4; bs = cellBytes pix w h s ramp cx cy
        in out[i := bs ! 0, i + 1 := bs ! 1, i + 2 := bs ! 2, i + 3 := bs ! 3])
     else out)"
proof -
  obtain r g b n where sc: "sampleCell pix w h s cx cy = (r, g, b, n)"
    by (cases "sampleCell pix w h s cx cy")
  show ?thesis
    using assms
    by (simp add: processCell_def cellCount_def cellBytes_def sc Let_def rd_def byteNum_def
        nth_list_update)
qed

lemma length_processCell [simp]: "length (processCell pix w h s ramp cw cy cx out) = length out"
  by (simp add: processCell_def Let_def split: prod.splits)

lemma nth_update4:
  assumes "i + 3 < length xs" "j < length xs"
  shows "xs[i := a, i + 1 := b, i + 2 := c, i + 3 := d] ! j =
    (if j = i then a else if j = i + 1 then b else if j = i + 2 then c
     else if j = i + 3 then d else xs ! j)"
  using assms by (simp add: nth_list_update)

lemma block4_nth:
  assumes "q * 4 + 3 < length xs" "j < length xs"
  shows "xs[q * 4 := bs ! 0, q * 4 + 1 := bs ! 1, q * 4 + 2 := bs ! 2, q * 4 + 3 := bs ! 3] ! j =
    (if j div 4 = q then bs ! (j mod 4) else xs ! j)"
proof (cases "j div 4 = q")
  case True
  define k where "k = j mod 4"
  have k: "k < 4" by (simp add: k_def)
  have j: "j = q * 4 + k"
    using True unfolding k_def by presburger
  have rhs: "(if j div 4 = q then bs ! (j mod 4) else xs ! j) = bs ! k"
    using True by (simp add: k_def)
  have lhs: "(if j = q * 4 then bs ! 0 else if j = q * 4 + 1 then bs ! 1
      else if j = q * 4 + 2 then bs ! 2 else if j = q * 4 + 3 then bs ! 3 else xs ! j) = bs ! k"
  proof -
    consider "k = 0" | "k = 1" | "k = 2" | "k = 3"
      using k by linarith
    then show ?thesis
      by cases (simp_all add: j)
  qed
  show ?thesis
    unfolding nth_update4 [OF assms] rhs by (rule lhs)
next
  case False
  then have "j \<noteq> q * 4" "j \<noteq> q * 4 + 1" "j \<noteq> q * 4 + 2" "j \<noteq> q * 4 + 3"
    by presburger+
  with False show ?thesis
    unfolding nth_update4 [OF assms] by simp
qed

lemma processCell_nth:
  assumes "(cy * cw + cx) * 4 + 3 < length out" "j < length out"
  shows "processCell pix w h s ramp cw cy cx out ! j =
    (if j div 4 = cy * cw + cx \<and> cellCount pix w h s cx cy > 0
     then cellBytes pix w h s ramp cx cy ! (j mod 4) else out ! j)"
  unfolding processCell_eq [OF assms(1)] Let_def
  using block4_nth [OF assms, of "cellBytes pix w h s ramp cx cy"] by simp


text \<open>
  The loops over \<open>cx\<close> and \<open>cy\<close>: element \<open>j\<close> of the result belongs to cell
  \<open>j div 4\<close>, that is to column \<open>j div 4 mod cw\<close> of row \<open>j div 4 div cw\<close>.
\<close>

lemma length_row [simp]:
  "length (fold (\<lambda>cx. processCell pix w h s ramp cw cy cx) xs out) = length out"
  by (induction xs arbitrary: out) simp_all

lemma length_grid [simp]:
  "length (fold (\<lambda>cy. fold (\<lambda>cx. processCell pix w h s ramp cw cy cx) xs) ys out) = length out"
  by (induction ys arbitrary: out) simp_all

lemma row_nth:
  assumes "(cy * cw + m) * 4 \<le> length out" "j < length out"
  shows "fold (\<lambda>cx. processCell pix w h s ramp cw cy cx) [0..<m] out ! j =
    (if cy * cw \<le> j div 4 \<and> j div 4 < cy * cw + m \<and>
        cellCount pix w h s (j div 4 - cy * cw) cy > 0
     then cellBytes pix w h s ramp (j div 4 - cy * cw) cy ! (j mod 4) else out ! j)"
  using assms(1)
proof (induction m)
  case 0
  have e: "fold (\<lambda>cx. processCell pix w h s ramp cw cy cx) [0..<0] out = out"
    by simp
  have neg: "\<not> (cy * cw \<le> j div 4 \<and> j div 4 < cy * cw + 0 \<and>
      cellCount pix w h s (j div 4 - cy * cw) cy > 0)"
    by simp
  show ?case
    unfolding e by (rule if_not_P [OF neg, symmetric])
next
  case (Suc m)
  define prev where "prev = fold (\<lambda>cx. processCell pix w h s ramp cw cy cx) [0..<m] out"
  have len: "length prev = length out"
    by (simp add: prev_def)
  have IH: "prev ! j =
    (if cy * cw \<le> j div 4 \<and> j div 4 < cy * cw + m \<and>
        cellCount pix w h s (j div 4 - cy * cw) cy > 0
     then cellBytes pix w h s ramp (j div 4 - cy * cw) cy ! (j mod 4) else out ! j)"
    unfolding prev_def using Suc.prems by (intro Suc.IH) simp
  have rng: "(cy * cw + m) * 4 + 3 < length prev"
    using Suc.prems by (simp add: len)
  have step: "fold (\<lambda>cx. processCell pix w h s ramp cw cy cx) [0..<Suc m] out =
      processCell pix w h s ramp cw cy m prev"
    by (simp add: prev_def)
  have nth: "processCell pix w h s ramp cw cy m prev ! j =
    (if j div 4 = cy * cw + m \<and> cellCount pix w h s m cy > 0
     then cellBytes pix w h s ramp m cy ! (j mod 4) else prev ! j)"
    using rng assms(2) by (intro processCell_nth) (simp_all add: len)
  show ?case
  proof (cases "j div 4 = cy * cw + m")
    case True
    then show ?thesis
      unfolding step nth IH by simp
  next
    case False
    then have "j div 4 < cy * cw + Suc m \<longleftrightarrow> j div 4 < cy * cw + m"
      by auto
    with False show ?thesis
      unfolding step nth IH by simp
  qed
qed

lemma grid_nth:
  assumes "n * cw * 4 \<le> length out" "j < length out"
  shows "fold (\<lambda>cy. fold (\<lambda>cx. processCell pix w h s ramp cw cy cx) [0..<cw]) [0..<n] out ! j =
    (if j div 4 < n * cw \<and> cellCount pix w h s (j div 4 mod cw) (j div 4 div cw) > 0
     then cellBytes pix w h s ramp (j div 4 mod cw) (j div 4 div cw) ! (j mod 4) else out ! j)"
  using assms(1)
proof (induction n)
  case 0
  then show ?case by simp
next
  case (Suc n)
  define prev where
    "prev = fold (\<lambda>cy. fold (\<lambda>cx. processCell pix w h s ramp cw cy cx) [0..<cw]) [0..<n] out"
  define i where "i = j div 4"
  have len: "length prev = length out"
    by (simp add: prev_def)
  have IH: "prev ! j =
    (if i < n * cw \<and> cellCount pix w h s (i mod cw) (i div cw) > 0
     then cellBytes pix w h s ramp (i mod cw) (i div cw) ! (j mod 4) else out ! j)"
    unfolding prev_def i_def using Suc.prems by (intro Suc.IH) simp
  have step: "fold (\<lambda>cy. fold (\<lambda>cx. processCell pix w h s ramp cw cy cx) [0..<cw]) [0..<Suc n] out =
      fold (\<lambda>cx. processCell pix w h s ramp cw n cx) [0..<cw] prev"
    by (simp add: prev_def)
  have row: "fold (\<lambda>cx. processCell pix w h s ramp cw n cx) [0..<cw] prev ! j =
    (if n * cw \<le> i \<and> i < n * cw + cw \<and> cellCount pix w h s (i - n * cw) n > 0
     then cellBytes pix w h s ramp (i - n * cw) n ! (j mod 4) else prev ! j)"
    unfolding i_def using Suc.prems assms(2) by (intro row_nth) (simp_all add: len algebra_simps)
  show ?case
  proof (cases "n * cw \<le> i \<and> i < n * cw + cw")
    case True
    then have cw: "0 < cw" by auto
    from True have d: "i div cw = n"
      by (metis div_nat_eqI mult.commute mult_Suc_right add.commute)
    have m: "i mod cw = i - n * cw"
      using d [symmetric] by (simp add: modulo_nat_def mult.commute)
    from True have lt: "i < Suc n * cw" and nlt: "\<not> i < n * cw" by simp_all
    show ?thesis
      unfolding step row IH i_def [symmetric] using True lt nlt by (simp add: d m)
  next
    case False
    then have "i < Suc n * cw \<longleftrightarrow> i < n * cw"
      by auto
    with False show ?thesis
      unfolding step row IH i_def [symmetric] by auto
  qed
qed

lemma gridDim:
  assumes "0 < s" "w < 2 ^ 53"
  shows "floorDiv w s = w div s"
  using floor_roundDouble_div [OF assms] by (simp add: floorDiv_def)

lemma processPixels_pos:
  assumes "0 < s"
  shows "processPixels pix w h s ca ramp =
    Inr (fold (\<lambda>cy. fold (\<lambda>cx. processCell pix w h s ramp (floorDiv w s) cy cx)
               [0..<floorDiv w s])
           [0..<floorDiv h s] (replicate (floorDiv w s * floorDiv h s * 4) 0))"
  using assms by (simp add: processPixels_def Let_def)

lemma processPixels_grid:
  assumes "0 < s" "w < 2 ^ 53" "h < 2 ^ 53"
  shows "processPixels pix w h s ca ramp =
    Inr (fold (\<lambda>cy. fold (\<lambda>cx. processCell pix w h s ramp (w div s) cy cx) [0..<w div s])
           [0..<h div s] (replicate (w div s * (h div s) * 4) 0))"
  unfolding processPixels_pos [OF assms(1)] gridDim [OF assms(1,2)] gridDim [OF assms(1,3)] ..

lemma cell_index_less:
  fixes cx cy cw ch k :: nat
  assumes "cx < cw" "cy < ch" "k < 4"
  shows "(cy * cw + cx) * 4 + k < cw * ch * 4"
proof -
  have "cy * cw + cx < cy * cw + cw" using assms by simp
  also have "\<dots> = (cy + 1) * cw" by simp
  also have "\<dots> \<le> ch * cw"
    using assms(2) by (intro mult_le_mono1) simp
  finally have "cy * cw + cx + 1 \<le> cw * ch"
    by (simp add: mult.commute)
  then have "(cy * cw + cx + 1) * 4 \<le> cw * ch * 4"
    by simp
  with assms(3) show ?thesis by simp
qed

lemma cell_div_mod:
  fixes cx cy cw k :: nat
  assumes "cx < cw" "k < 4"
  shows "((cy * cw + cx) * 4 + k) div 4 = cy * cw + cx"
    and "((cy * cw + cx) * 4 + k) mod 4 = k"
    and "(cy * cw + cx) mod cw = cx"
    and "(cy * cw + cx) div cw = cy"
proof -
  have a: "(q * 4 + k) div 4 = q" "(q * 4 + k) mod 4 = k" for q
    using assms(2) by simp_all
  show "((cy * cw + cx) * 4 + k) div 4 = cy * cw + cx"
    by (rule a)
  show "((cy * cw + cx) * 4 + k) mod 4 = k"
    by (rule a)
  show "(cy * cw + cx) mod cw = cx" "(cy * cw + cx) div cw = cy"
    using assms(1) by simp_all
qed

lemma processPixels_nth:
  assumes "0 < s" "w < 2 ^ 53" "h < 2 ^ 53"
    and "cx < w div s" "cy < h div s" "k < 4"
  obtains out where "processPixels pix w h s ca ramp = Inr out"
    and "length out = w div s * (h div s) * 4"
    and "out ! ((cy * (w div s) + cx) * 4 + k) =
      (if cellCount pix w h s cx cy > 0 then cellBytes pix w h s ramp cx cy ! k else 0)"
proof -
  define cw ch where "cw = w div s" and "ch = h div s"
  define out where "out = fold (\<lambda>cy. fold (\<lambda>cx. processCell pix w h s ramp cw cy cx) [0..<cw])
           [0..<ch] (replicate (cw * ch * 4) 0)"
  define j where "j = (cy * cw + cx) * 4 + k"
  have j: "j < cw * ch * 4"
    unfolding j_def using assms(4-6) by (intro cell_index_less) (simp_all add: cw_def ch_def)
  have dm: "j div 4 = cy * cw + cx" "j mod 4 = k" "(cy * cw + cx) mod cw = cx"
    "(cy * cw + cx) div cw = cy"
    unfolding j_def using assms(4,6) by (intro cell_div_mod; simp add: cw_def)+
  have lt: "cy * cw + cx < ch * cw"
    using j dm(1) by (simp add: mult.commute)
  have "out ! j =
    (if j div 4 < ch * cw \<and> cellCount pix w h s (j div 4 mod cw) (j div 4 div cw) > 0
     then cellBytes pix w h s ramp (j div 4 mod cw) (j div 4 div cw) ! (j mod 4)
     else replicate (cw * ch * 4) 0 ! j)"
    unfolding out_def using j by (intro grid_nth) (simp_all add: mult.commute)
  then have nth: "out ! j =
      (if cellCount pix w h s cx cy > 0 then cellBytes pix w h s ramp cx cy ! k else 0)"
    unfolding dm using j lt by simp
  show ?thesis
  proof (rule that [of out])
    show "processPixels pix w h s ca ramp = Inr out"
      unfolding out_def cw_def ch_def by (rule processPixels_grid [OF assms(1-3)])
    show "length out = w div s * (h div s) * 4"
      by (simp add: out_def cw_def ch_def)
    show "out ! ((cy * (w div s) + cx) * 4 + k) =
      (if cellCount pix w h s cx cy > 0 then cellBytes pix w h s ramp cx cy ! k else 0)"
      using nth by (simp add: j_def cw_def)
  qed
qed

subsection \<open>Cells of the grid lie inside the frame\<close>

lemma set_blockCoords:
  "set (blockCoords s cx cy) = {(cx * s + x, cy * s + y) | x y. x < s \<and> y < s}"
  by (auto simp add: blockCoords_def)

lemma grid_cell_inside:
  fixes cx x w s :: nat
  assumes "cx < w div s" "x < s"
  shows "cx * s + x < w"
proof -
  have "cx * s + x < cx * s + s" using assms by simp
  also have "\<dots> = (cx + 1) * s" by simp
  also have "\<dots> \<le> (w div s) * s"
    using assms(1) by (intro mult_le_mono1) simp
  also have "\<dots> \<le> w" by simp
  finally show ?thesis .
qed

lemma blockPixels_grid:
  assumes "cx < w div s" "cy < h div s"
  shows "blockPixels w h s cx cy = blockCoords s cx cy"
  unfolding blockPixels_def
  by (rule filter_True) (auto simp add: set_blockCoords inBounds_def grid_cell_inside assms)

lemma blockPixels_empty_outside:
  assumes "0 < s" "blockPixels w h s cx cy = []"
  shows "\<not> (cx < w div s \<and> cy < h div s)"
proof
  assume "cx < w div s \<and> cy < h div s"
  then have "blockPixels w h s cx cy = blockCoords s cx cy"
    by (simp add: blockPixels_grid)
  then have "length (blockPixels w h s cx cy) = s * s"
    by (simp add: length_blockCoords)
  with assms show False by simp
qed

lemma channelSum_le: "channelSum pix w k ps \<le> 255 * length ps"
  unfolding channelSum_def
  by (induction ps) (simp_all add: channel_le add_le_mono)

lemma mean_byte:
  fixes a n :: nat
  assumes "0 < n" "a \<le> 255 * n" "a < 2 ^ 53"
  shows "toUint8 (jfloor (jdiv (Num (of_nat a)) (Num (of_nat n)))) = of_nat (a div n)"
    and "unat (toUint8 (jfloor (jdiv (Num (of_nat a)) (Num (of_nat n))))) = a div n"
proof -
  have fl: "\<lfloor>roundDouble (of_nat a / of_nat n)\<rfloor> = int (a div n)"
    using assms(1,3) by (rule floor_roundDouble_div)
  have "a div n \<le> (255 * n) div n"
    using assms(2) by (rule div_le_mono)
  then have "a div n \<le> 255"
    using assms(1) by simp
  show 1: "toUint8 (jfloor (jdiv (Num (of_nat a)) (Num (of_nat n)))) = of_nat (a div n)"
    using assms(1) by (simp add: fl)
  show "unat (toUint8 (jfloor (jdiv (Num (of_nat a)) (Num (of_nat n))))) = a div n"
    unfolding 1 using \<open>a div n \<le> 255\<close> by (simp add: unat_of_nat)
qed

text \<open>
  Brightness and glyph index. The brightness of three bytes is a number between 0 and 1:
  every operation of the expression is monotone, and the value at (255, 255, 255) is exactly
  1. The glyph index of a brightness in that range lies within the ramp.
\<close>

lemma brightness_white: "calculateBrightness (Num 255) (Num 255) (Num 255) = Num 1"
  by code_simp

lemma lit_nonneg: "0 \<le> x \<Longrightarrow> \<exists>c. lit x = Num c \<and> 0 \<le> c"
  by (simp add: lit_def roundDouble_nonneg)

lemma brightness_range:
  assumes "0 \<le> r" "r \<le> 255" "0 \<le> g" "g \<le> 255" "0 \<le> b" "b \<le> 255"
  shows "\<exists>v. calculateBrightness (Num r) (Num g) (Num b) = Num v \<and> 0 \<le> v \<and> v \<le> 1"
proof -
  define c1 c2 c3 :: rat where "c1 = roundDouble (299 / 1000)" and "c2 = roundDouble (587 / 1000)"
    and "c3 = roundDouble (114 / 1000)"
  have c: "0 \<le> c1" "0 \<le> c2" "0 \<le> c3"
    by (simp_all add: c1_def c2_def c3_def roundDouble_nonneg)
  define f where "f r g b = roundDouble (roundDouble (roundDouble (roundDouble (r * c1) +
      roundDouble (g * c2)) + roundDouble (b * c3)) / 255)" for r g b :: rat
  have eq: "calculateBrightness (Num r) (Num g) (Num b) = Num (f r g b)" for r g b
    by (simp add: calculateBrightness_def lit_def f_def c1_def c2_def c3_def)
  have white: "f 255 255 255 = 1"
    using brightness_white unfolding eq by simp
  have p: "0 \<le> roundDouble (r * c1)" "0 \<le> roundDouble (g * c2)" "0 \<le> roundDouble (b * c3)"
    using assms c by (simp_all add: roundDouble_nonneg)
  have m1: "roundDouble (r * c1) \<le> roundDouble (255 * c1)"
    using assms c by (intro roundDouble_mono mult_right_mono mult_nonneg_nonneg) simp_all
  have m2: "roundDouble (g * c2) \<le> roundDouble (255 * c2)"
    using assms c by (intro roundDouble_mono mult_right_mono mult_nonneg_nonneg) simp_all
  have m3: "roundDouble (b * c3) \<le> roundDouble (255 * c3)"
    using assms c by (intro roundDouble_mono mult_right_mono mult_nonneg_nonneg) simp_all
  have s1: "0 \<le> roundDouble (roundDouble (r * c1) + roundDouble (g * c2))"
    using p by (intro roundDouble_nonneg) simp
  have s1m: "roundDouble (roundDouble (r * c1) + roundDouble (g * c2))
      \<le> roundDouble (roundDouble (255 * c1) + roundDouble (255 * c2))"
    using p m1 m2 by (intro roundDouble_mono) simp_all
  have s2: "0 \<le> roundDouble (roundDouble (roundDouble (r * c1) + roundDouble (g * c2)) +
      roundDouble (b * c3))"
    using p s1 by (intro roundDouble_nonneg) simp
  have s2m: "roundDouble (roundDouble (roundDouble (r * c1) + roundDouble (g * c2)) +
      roundDouble (b * c3))
      \<le> roundDouble (roundDouble (roundDouble (255 * c1) + roundDouble (255 * c2)) +
      roundDouble (255 * c3))"
    using p s1 s1m m3 by (intro roundDouble_mono) simp_all
  define A where "A = roundDouble (roundDouble (roundDouble (r * c1) + roundDouble (g * c2)) +
      roundDouble (b * c3))"
  define A' where "A' = roundDouble (roundDouble (roundDouble (255 * c1) + roundDouble (255 * c2)) +
      roundDouble (255 * c3))"
  have A: "0 \<le> A / 255" "A / 255 \<le> A' / 255"
    using s2 s2m by (simp_all add: A_def A'_def)
  have fA: "f r g b = roundDouble (A / 255)" "f 255 255 255 = roundDouble (A' / 255)"
    by (simp_all add: f_def A_def A'_def)
  have "0 \<le> f r g b"
    unfolding fA using A(1) by (rule roundDouble_nonneg)
  moreover have "f r g b \<le> f 255 255 255"
    unfolding fA using A by (rule roundDouble_mono)
  ultimately show ?thesis
    using white eq by auto
qed

lemma byteNum_range: "\<exists>r. byteNum w = Num r \<and> 0 \<le> r \<and> r \<le> 255"
proof -
  have "unat w \<le> 255" by (rule unat_byte_le)
  then have "(of_nat (unat w) :: rat) \<le> of_nat 255"
    by (simp only: of_nat_le_iff)
  also have "(of_nat 255 :: rat) = 255" by simp
  finally have "(of_nat (unat w) :: rat) \<le> 255" .
  moreover have "(0 :: rat) \<le> of_nat (unat w)"
    by (rule of_nat_0_le_iff)
  ultimately show ?thesis
    unfolding byteNum_def by blast
qed

lemma brightness_bytes:
  "\<exists>v. calculateBrightness (byteNum R) (byteNum G) (byteNum B) = Num v \<and> 0 \<le> v \<and> v \<le> 1"
proof -
  obtain r g b where "byteNum R = Num r" "0 \<le> r" "r \<le> 255" "byteNum G = Num g" "0 \<le> g" "g \<le> 255"
    "byteNum B = Num b" "0 \<le> b" "b \<le> 255"
    using byteNum_range [of R] byteNum_range [of G] byteNum_range [of B] by auto
  then show ?thesis
    using brightness_range [of r g b] by simp
qed

lemma charIndexOf_range:
  assumes "0 \<le> v" "v \<le> 1" "ramp \<noteq> []" "length ramp \<le> 2 ^ 53"
  shows "\<exists>i. charIndexOf (Num v) ramp = Num (of_int i) \<and> 0 \<le> i \<and> i \<le> int (length ramp) - 1
    \<and> i = \<lfloor>roundDouble (v * (of_nat (length ramp) - 1))\<rfloor>"
proof -
  define n where "n = length ramp - 1"
  have n: "of_nat (length ramp) - (1 :: rat) = of_nat n"
    using assms(3) by (cases ramp) (simp_all add: n_def)
  have "n \<le> 2 ^ 53"
    using assms(4) by (simp add: n_def)
  then have exact: "roundDouble (of_nat n) = of_nat n"
    by (rule roundDouble_of_nat)
  define x where "x = roundDouble (v * of_nat n)"
  have eq: "charIndexOf (Num v) ramp = Num (of_int \<lfloor>x\<rfloor>)"
    by (simp add: charIndexOf_def n exact x_def)
  have "0 \<le> x"
    unfolding x_def using assms(1) by (intro roundDouble_nonneg) simp
  moreover have "x \<le> roundDouble (1 * of_nat n)"
    unfolding x_def using assms(1,2) by (intro roundDouble_mono mult_right_mono) simp_all
  then have "x \<le> of_nat n"
    by (simp add: exact)
  ultimately have "0 \<le> \<lfloor>x\<rfloor>" "\<lfloor>x\<rfloor> \<le> int n"
    by (simp_all add: floor_le_iff)
  moreover have "int n = int (length ramp) - 1"
    using assms(3) by (cases ramp) (simp_all add: n_def)
  ultimately show ?thesis
    using eq by (auto simp add: x_def n)
qed

lemma toUint8_small:
  assumes "0 \<le> i" "i \<le> 255"
  shows "unat (toUint8 (Num (of_int i))) = nat i"
proof -
  have "toUint8 (Num (of_int i)) = word_of_int i"
    using assms by simp
  moreover have "unat (word_of_int i :: 8 word) = nat i"
    using assms by (simp add: unat_eq_nat_uint uint_word_of_int take_bit_int_eq_self)
  ultimately show ?thesis by simp
qed

lemma glyph_byte_default:
  "unat (toUint8 (charIndexOf (calculateBrightness (byteNum R) (byteNum G) (byteNum B)) defaultRamp)) \<le> 9"
proof -
  obtain v where v: "calculateBrightness (byteNum R) (byteNum G) (byteNum B) = Num v" "0 \<le> v" "v \<le> 1"
    using brightness_bytes by blast
  have "defaultRamp \<noteq> []" "length defaultRamp \<le> 2 ^ 53"
    by (simp_all add: defaultRamp_def)
  from charIndexOf_range [OF v(2,3) this]
  obtain i where i: "charIndexOf (Num v) defaultRamp = Num (of_int i)" "0 \<le> i" "i \<le> 9"
    by (auto simp add: defaultRamp_def)
  then have "unat (toUint8 (Num (of_int i))) = nat i"
    by (intro toUint8_small) simp_all
  then show ?thesis
    using i by (simp add: v(1))
qed

lemma grid_cell_sample:
  assumes wf: "length pix = w * h * 4"
    and rng: "255 * (s * s) < 2 ^ 53"
    and cell: "cx < w div s" "cy < h div s"
  shows "sampleCell pix w h s cx cy =
    (Num (of_nat (channelSum pix w 0 (blockPixels w h s cx cy))),
     Num (of_nat (channelSum pix w 1 (blockPixels w h s cx cy))),
     Num (of_nat (channelSum pix w 2 (blockPixels w h s cx cy))),
     s * s)"
proof -
  have "length (blockPixels w h s cx cy) = s * s"
    using cell by (simp add: blockPixels_grid length_blockCoords)
  moreover have "255 * (s * s) \<le> (2 :: nat) ^ 53"
    using rng by simp
  ultimately show ?thesis
    using sampleCell_sums [OF wf, of s cx cy] by simp
qed

lemma grid_cell_bytes:
  assumes wf: "length pix = w * h * 4"
    and s: "0 < s"
    and rng: "255 * (s * s) < 2 ^ 53"
    and cell: "cx < w div s" "cy < h div s"
  shows "cellCount pix w h s cx cy = s * s"
    and "cellBytes pix w h s ramp cx cy =
      [of_nat (cellMean pix w h s 0 cx cy), of_nat (cellMean pix w h s 1 cx cy),
       of_nat (cellMean pix w h s 2 cx cy),
       toUint8 (charIndexOf (calculateBrightness (byteNum (of_nat (cellMean pix w h s 0 cx cy)))
         (byteNum (of_nat (cellMean pix w h s 1 cx cy)))
         (byteNum (of_nat (cellMean pix w h s 2 cx cy)))) ramp)]"
    and "unat (of_nat (cellMean pix w h s k cx cy) :: 8 word) = cellMean pix w h s k cx cy"
proof -
  have len: "length (blockPixels w h s cx cy) = s * s"
    using cell by (simp add: blockPixels_grid length_blockCoords)
  have n: "0 < s * s" using s by simp
  have le: "channelSum pix w k (blockPixels w h s cx cy) \<le> 255 * (s * s)" for k
    using channelSum_le [of pix w k "blockPixels w h s cx cy"] by (simp add: len)
  then have lt: "channelSum pix w k (blockPixels w h s cx cy) < 2 ^ 53" for k
    using rng le [of k] by linarith
  note sc = grid_cell_sample [OF wf rng cell]
  show "cellCount pix w h s cx cy = s * s"
    by (simp add: cellCount_def sc)
  have cm: "cellMean pix w h s k cx cy =
      channelSum pix w k (blockPixels w h s cx cy) div (s * s)" for k
    by (simp add: cellMean_def len)
  have mb: "toUint8 (jfloor (jdiv (Num (of_nat (channelSum pix w k (blockPixels w h s cx cy))))
      (Num (of_nat (s * s))))) = of_nat (cellMean pix w h s k cx cy)" for k
    unfolding cm using n le lt by (rule mean_byte(1))
  show "cellBytes pix w h s ramp cx cy =
      [of_nat (cellMean pix w h s 0 cx cy), of_nat (cellMean pix w h s 1 cx cy),
       of_nat (cellMean pix w h s 2 cx cy),
       toUint8 (charIndexOf (calculateBrightness (byteNum (of_nat (cellMean pix w h s 0 cx cy)))
         (byteNum (of_nat (cellMean pix w h s 1 cx cy)))
         (byteNum (of_nat (cellMean pix w h s 2 cx cy)))) ramp)]"
    by (simp only: cellBytes_def sc prod.case Let_def mb)
  show "unat (of_nat (cellMean pix w h s k cx cy) :: 8 word) = cellMean pix w h s k cx cy"
    using mean_byte(2) [OF n le lt, of k] unfolding mb [unfolded cm] cm .
qed

lemma uniform_channelSum:
  assumes "\<And>p. p \<in> set ps \<Longrightarrow> channel pix w k p = c"
  shows "channelSum pix w k ps = length ps * c"
  using assms unfolding channelSum_def by (induction ps) simp_all

lemma uniform_channel:
  assumes uni: "\<forall>i < w * h. pix ! (i * 4 + k) = C"
    and "inBounds w h p"
  shows "channel pix w k p = unat C"
proof -
  obtain px py where p: "p = (px, py)" by (cases p)
  with assms(2) have b: "px < w" "py < h"
    by (simp_all add: inBounds_def)
  have "py * w + px < py * w + w" using b by simp
  also have "\<dots> = (py + 1) * w" by simp
  also have "\<dots> \<le> h * w"
    using b(2) by (intro mult_le_mono1) simp
  finally have "py * w + px < w * h"
    by (simp add: mult.commute)
  with uni have "pix ! ((py * w + px) * 4 + k) = C"
    by blast
  then show ?thesis
    by (simp add: channel_def p)
qed

lemma processCell_skip:
  assumes "cellCount pix w h s cx cy = 0"
  shows "processCell pix w h s ramp cw cy cx out = out"
  using assms by (simp add: processCell_def cellCount_def split: prod.splits)

lemma processPixels_cell:
  assumes "0 < s" "w < 2 ^ 53" "h < 2 ^ 53"
    and out: "processPixels pix w h s ca ramp = Inr out"
    and cell: "cx < w div s" "cy < h div s" "k < 4"
  shows "out ! ((cy * (w div s) + cx) * 4 + k) =
      (if cellCount pix w h s cx cy > 0 then cellBytes pix w h s ramp cx cy ! k else 0)"
    and "length out = w div s * (h div s) * 4"
proof -
  obtain out' where o: "processPixels pix w h s ca ramp = Inr out'"
    "length out' = w div s * (h div s) * 4"
    "out' ! ((cy * (w div s) + cx) * 4 + k) =
      (if cellCount pix w h s cx cy > 0 then cellBytes pix w h s ramp cx cy ! k else 0)"
    using processPixels_nth [OF assms(1-3) cell] by blast
  from o(1) out have "out' = out" by simp
  with o show "out ! ((cy * (w div s) + cx) * 4 + k) =
      (if cellCount pix w h s cx cy > 0 then cellBytes pix w h s ramp cx cy ! k else 0)"
    and "length out = w div s * (h div s) * 4"
    by simp_all
qed

lemma uniform_cellMean:
  assumes s: "0 < s" and cell: "cx < w div s" "cy < h div s"
    and uni: "\<forall>i < w * h. pix ! (i * 4 + k) = C"
  shows "cellMean pix w h s k cx cy = unat C"
proof -
  have len: "length (blockPixels w h s cx cy) = s * s"
    using cell by (simp add: blockPixels_grid length_blockCoords)
  have "channelSum pix w k (blockPixels w h s cx cy) = length (blockPixels w h s cx cy) * unat C"
  proof (rule uniform_channelSum)
    fix p assume "p \<in> set (blockPixels w h s cx cy)"
    then have "inBounds w h p"
      by (simp add: blockPixels_def)
    with uni show "channel pix w k p = unat C"
      by (rule uniform_channel)
  qed
  then show ?thesis
    using s by (simp add: cellMean_def len)
qed

lemma cellBytes_glyph:
  "\<exists>R G B. cellBytes pix w h s ramp cx cy ! 3 =
     toUint8 (charIndexOf (calculateBrightness (byteNum R) (byteNum G) (byteNum B)) ramp)"
  by (cases "sampleCell pix w h s cx cy") (auto simp add: cellBytes_def Let_def)

lemma charAt_nat:
  assumes "n < length ramp"
  shows "charAt ramp (Num (of_nat n)) = Some (ramp ! n)"
  using assms by (simp add: charAt_def)

lemma charAt_byte:
  assumes "j < length out" "unat (out ! j) < length ramp"
  shows "charAt ramp (rd out j) = Some (ramp ! unat (out ! j))"
proof -
  have "rd out j = Num (of_nat (unat (out ! j)))"
    using assms(1) by (rule rd_in)
  then show ?thesis
    using charAt_nat [OF assms(2)] by (simp only:)
qed

lemma charIndexOf_Num:
  "charIndexOf (Num v) ramp =
     Num (of_int \<lfloor>roundDouble (v * roundDouble (of_nat (length ramp) - 1))\<rfloor>)"
  by (simp add: charIndexOf_def)

lemma blockPixels_outside: "blockPixels 2 2 2 1 0 = []"
  by code_simp

lemma index_of_two:
  "charIndexOf (Num 2) defaultRamp = Num 18"
  "charAt defaultRamp (Num 18) = None"
  by code_simp+

lemma processPixels_red: "processPixels redPixel 1 1 1 (Num 0) defaultRamp = Inr [255, 0, 0, 2]"
  by code_simp

section \<open>Properties of the renderer\<close>

lemma renderCell_Uint8Array:
  assumes "(y * cw + x) * 4 + 3 < length d"
  shows "renderCell ramp fs ca0 cvw cvh (Uint8Array d) cw ch y x =
    [\<lparr>fillStyle = (rd d ((y * cw + x) * 4), rd d ((y * cw + x) * 4 + 1), rd d ((y * cw + x) * 4 + 2)),
      glyphChar = charAt ramp (rd d ((y * cw + x) * 4 + 3)),
      posX = x * fs, posY = y * fs\<rparr>]"
  using assms by (simp add: renderCell_def Let_def)

lemma concat_map_singleton:
  assumes "\<And>x. x \<in> set xs \<Longrightarrow> f x = [g x]"
  shows "concat (map f xs) = map g xs"
  using assms by (induction xs) simp_all

lemma map_concat_cong:
  assumes "\<And>y. y \<in> set ys \<Longrightarrow> map p (F y) = G y"
  shows "map p (concat (map F ys)) = concat (map G ys)"
  using assms by (induction ys) simp_all

lemma render_row:
  assumes "length d = cw * ch * 4" "y < ch"
  shows "concat (map (\<lambda>x. renderCell ramp fs ca0 cvw cvh (Uint8Array d) cw ch y x) [0..<cw]) =
    map (\<lambda>x. \<lparr>fillStyle = (rd d ((y * cw + x) * 4), rd d ((y * cw + x) * 4 + 1),
          rd d ((y * cw + x) * 4 + 2)),
        glyphChar = charAt ramp (rd d ((y * cw + x) * 4 + 3)),
        posX = x * fs, posY = y * fs\<rparr>) [0..<cw]"
proof (rule concat_map_singleton)
  fix x assume "x \<in> set [0..<cw]"
  then have "x < cw" by simp
  then have "(y * cw + x) * 4 + 3 < length d"
    unfolding assms(1) using assms(2) by (intro cell_index_less) simp_all
  then show "renderCell ramp fs ca0 cvw cvh (Uint8Array d) cw ch y x =
    [\<lparr>fillStyle = (rd d ((y * cw + x) * 4), rd d ((y * cw + x) * 4 + 1), rd d ((y * cw + x) * 4 + 2)),
      glyphChar = charAt ramp (rd d ((y * cw + x) * 4 + 3)),
      posX = x * fs, posY = y * fs\<rparr>]"
    by (rule renderCell_Uint8Array)
qed

lemma render_origins:
  assumes "length d = cw * ch * 4"
  shows "map (\<lambda>g. (posX g, posY g))
      (concat (map (\<lambda>y. concat (map (\<lambda>x. renderCell ramp fs ca0 cvw cvh (Uint8Array d) cw ch y x)
         [0..<cw])) [0..<ch])) =
    concat (map (\<lambda>y. map (\<lambda>x. (x * fs, y * fs)) [0..<cw]) [0..<ch])"
proof (rule map_concat_cong)
  fix y assume "y \<in> set [0..<ch]"
  then have "y < ch" by simp
  show "map (\<lambda>g. (posX g, posY g))
      (concat (map (\<lambda>x. renderCell ramp fs ca0 cvw cvh (Uint8Array d) cw ch y x) [0..<cw])) =
    map (\<lambda>x. (x * fs, y * fs)) [0..<cw]"
    unfolding render_row [OF assms \<open>y < ch\<close>] by (simp add: comp_def)
qed

lemma length_gridOrigins: "length (gridOrigins w h s) = (w div s) * (h div s)"
  by (simp add: gridOrigins_def length_concat comp_def sum_list_triv mult.commute)

lemma updateOptions_fields:
  "useWASM (currentOptions (updateOptions upd conv)) = useWASM (currentOptions conv)"
  "wasmProcessor (updateOptions upd conv) = wasmProcessor conv"
  "asciiChars (updateOptions upd conv) = asciiChars conv"
  "newFontSize upd = Some s \<Longrightarrow> fontSize (currentOptions (updateOptions upd conv)) = s"
  by (simp_all add: updateOptions_def Let_def)

text \<open>The frame of one red pixel, converted with and without the pixel processor.\<close>

lemma red_processed:
  "map_sum id (surface \<circ> canvas \<circ> fst) (processFrame grayConverter redVideo) =
     Inr (Text ''#000000''
       [\<lparr>fillStyle = (Num 255, Num 0, Num 0), glyphChar = Some CHR '':'', posX = 0, posY = 0\<rparr>])"
  by code_simp

lemma red_fallback:
  "map_sum id (surface \<circ> canvas \<circ> fst)
       (processFrame (grayConverter\<lparr>wasmProcessor := None\<rparr>) redVideo) =
     Inr (Text ''#000000''
       [\<lparr>fillStyle = (Num 76, Num 76, Num 76), glyphChar = Some CHR '':'', posX = 0, posY = 0\<rparr>])"
  by code_simp

lemma uniformFrame_uniform:
  "\<forall>i < 2 * 2. uniformFrame ! (i * 4) = 200 \<and> uniformFrame ! (i * 4 + 1) = 100 \<and>
     uniformFrame ! (i * 4 + 2) = 50"
proof (intro allI impI)
  fix i :: nat assume "i < 2 * 2"
  then consider "i = 0" | "i = 1" | "i = 2" | "i = 3" by linarith
  then show "uniformFrame ! (i * 4) = 200 \<and> uniformFrame ! (i * 4 + 1) = 100 \<and>
     uniformFrame ! (i * 4 + 2) = 50"
    by cases (simp_all add: uniformFrame_def)
qed

section \<open>The cell sampler\<close>

text \<open>
  Claim C2. Let the frame be well formed (four bytes per pixel) and let \<open>(cx, cy)\<close> be a
  cell of the grid. Then \<open>processPixels\<close> returns an array in which the three colour bytes
  of the cell are the means of R, G and B over the in-bounds pixels of the cell's block, each
  sum being divided by the number of pixels actually sampled (\<open>count\<close>). If all pixels of
  the frame have the same colour, the three bytes are that colour, and the fourth byte, the
  glyph index, is a value that depends on the colour only, hence is the same for all cells.
  The bounds on \<open>w\<close>, \<open>h\<close> and \<open>s\<close> keep the sums and quotients within the range in
  which double arithmetic on integers is exact.
\<close>

theorem C2_cell_average:
  assumes wf: "length pix = w * h * 4"
    and s: "0 < s"
    and rng: "w < 2 ^ 53" "h < 2 ^ 53" "255 * (s * s) < 2 ^ 53"
    and cell: "cx < w div s" "cy < h div s"
  shows "\<exists>out. processPixels pix w h s ca ramp = Inr out \<and>
    cellCount pix w h s cx cy = length (blockPixels w h s cx cy) \<and>
    (\<forall>k < 3. unat (out ! ((cy * (w div s) + cx) * 4 + k)) = cellMean pix w h s k cx cy) \<and>
    (\<forall>R G B.
       (\<forall>i < w * h. pix ! (i * 4) = R \<and> pix ! (i * 4 + 1) = G \<and> pix ! (i * 4 + 2) = B) \<longrightarrow>
       out ! ((cy * (w div s) + cx) * 4) = R \<and>
       out ! ((cy * (w div s) + cx) * 4 + 1) = G \<and>
       out ! ((cy * (w div s) + cx) * 4 + 2) = B \<and>
       out ! ((cy * (w div s) + cx) * 4 + 3) =
         toUint8 (charIndexOf (calculateBrightness (byteNum R) (byteNum G) (byteNum B)) ramp))"
proof -
  obtain out where out: "processPixels pix w h s ca ramp = Inr out"
    using processPixels_grid [OF s rng(1,2)] by blast
  define base where "base = (cy * (w div s) + cx) * 4"
  note gb = grid_cell_bytes [OF wf s rng(3) cell]
  have len: "length (blockPixels w h s cx cy) = s * s"
    using cell by (simp add: blockPixels_grid length_blockCoords)
  have cnt: "cellCount pix w h s cx cy > 0"
    using s by (simp add: gb(1))
  have nth: "out ! (base + k) = cellBytes pix w h s ramp cx cy ! k" if "k < 4" for k
    unfolding base_def using processPixels_cell(1) [OF s rng(1,2) out cell that] cnt by simp
  have b0: "out ! base = of_nat (cellMean pix w h s 0 cx cy)"
    and b1: "out ! (base + 1) = of_nat (cellMean pix w h s 1 cx cy)"
    and b2: "out ! (base + 2) = of_nat (cellMean pix w h s 2 cx cy)"
    and b3: "out ! (base + 3) =
       toUint8 (charIndexOf (calculateBrightness (byteNum (of_nat (cellMean pix w h s 0 cx cy)))
         (byteNum (of_nat (cellMean pix w h s 1 cx cy)))
         (byteNum (of_nat (cellMean pix w h s 2 cx cy)))) ramp)"
    using nth [of 0] nth [of 1] nth [of 2] nth [of 3] by (simp_all add: gb(2))
  have means: "unat (out ! (base + k)) = cellMean pix w h s k cx cy" if "k < 3" for k
  proof -
    from that consider "k = 0" | "k = 1" | "k = 2" by linarith
    then show ?thesis
      using b0 b1 b2 by cases (simp_all add: gb(3))
  qed
  have uniform: "out ! base = R \<and> out ! (base + 1) = G \<and> out ! (base + 2) = B \<and>
      out ! (base + 3) =
        toUint8 (charIndexOf (calculateBrightness (byteNum R) (byteNum G) (byteNum B)) ramp)"
    if uni: "\<forall>i < w * h. pix ! (i * 4) = R \<and> pix ! (i * 4 + 1) = G \<and> pix ! (i * 4 + 2) = B"
    for R G B
  proof -
    have m0: "cellMean pix w h s 0 cx cy = unat R"
      using uni by (intro uniform_cellMean s cell) simp
    have m1: "cellMean pix w h s 1 cx cy = unat G"
      using uni by (intro uniform_cellMean s cell) simp
    have m2: "cellMean pix w h s 2 cx cy = unat B"
      using uni by (intro uniform_cellMean s cell) simp
    show ?thesis
      unfolding b0 b1 b2 b3 m0 m1 m2 by simp
  qed
  show ?thesis
  proof (intro exI [of _ out] conjI)
    show "processPixels pix w h s ca ramp = Inr out"
      by (rule out)
    show "cellCount pix w h s cx cy = length (blockPixels w h s cx cy)"
      by (simp add: gb(1) len)
    show "\<forall>k < 3. unat (out ! ((cy * (w div s) + cx) * 4 + k)) = cellMean pix w h s k cx cy"
      using means unfolding base_def by blast
    show "\<forall>R G B.
       (\<forall>i < w * h. pix ! (i * 4) = R \<and> pix ! (i * 4 + 1) = G \<and> pix ! (i * 4 + 2) = B) \<longrightarrow>
       out ! ((cy * (w div s) + cx) * 4) = R \<and>
       out ! ((cy * (w div s) + cx) * 4 + 1) = G \<and>
       out ! ((cy * (w div s) + cx) * 4 + 2) = B \<and>
       out ! ((cy * (w div s) + cx) * 4 + 3) =
         toUint8 (charIndexOf (calculateBrightness (byteNum R) (byteNum G) (byteNum B)) ramp)"
      using uniform unfolding base_def by blast
  qed
qed

theorem C2_cell_average_witness:
  "length uniformFrame = 2 * 2 * 4 \<and>
   (\<exists>out. processPixels uniformFrame 2 2 2 (Num 0) defaultRamp = Inr out \<and>
      cellCount uniformFrame 2 2 2 0 0 = length (blockPixels 2 2 2 0 0) \<and>
      out ! 0 = 200 \<and> out ! 1 = 100 \<and> out ! 2 = 50 \<and>
      out ! 3 = toUint8 (charIndexOf (calculateBrightness (byteNum 200) (byteNum 100) (byteNum 50))
        defaultRamp))"
proof -
  have wf: "length uniformFrame = 2 * 2 * 4"
    by (simp add: uniformFrame_def)
  have "\<exists>out. processPixels uniformFrame 2 2 2 (Num 0) defaultRamp = Inr out \<and>
    cellCount uniformFrame 2 2 2 0 0 = length (blockPixels 2 2 2 0 0) \<and>
    (\<forall>k < 3. unat (out ! ((0 * (2 div 2) + 0) * 4 + k)) = cellMean uniformFrame 2 2 2 k 0 0) \<and>
    (\<forall>R G B.
       (\<forall>i < 2 * 2. uniformFrame ! (i * 4) = R \<and> uniformFrame ! (i * 4 + 1) = G \<and>
          uniformFrame ! (i * 4 + 2) = B) \<longrightarrow>
       out ! ((0 * (2 div 2) + 0) * 4) = R \<and>
       out ! ((0 * (2 div 2) + 0) * 4 + 1) = G \<and>
       out ! ((0 * (2 div 2) + 0) * 4 + 2) = B \<and>
       out ! ((0 * (2 div 2) + 0) * 4 + 3) =
         toUint8 (charIndexOf (calculateBrightness (byteNum R) (byteNum G) (byteNum B)) defaultRamp))"
    by (rule C2_cell_average [OF wf]) simp_all
  then obtain out where out: "processPixels uniformFrame 2 2 2 (Num 0) defaultRamp = Inr out"
    "cellCount uniformFrame 2 2 2 0 0 = length (blockPixels 2 2 2 0 0)"
    and uni: "\<And>R G B. (\<forall>i < 2 * 2. uniformFrame ! (i * 4) = R \<and> uniformFrame ! (i * 4 + 1) = G \<and>
          uniformFrame ! (i * 4 + 2) = B) \<Longrightarrow>
       out ! ((0 * (2 div 2) + 0) * 4) = R \<and>
       out ! ((0 * (2 div 2) + 0) * 4 + 1) = G \<and>
       out ! ((0 * (2 div 2) + 0) * 4 + 2) = B \<and>
       out ! ((0 * (2 div 2) + 0) * 4 + 3) =
         toUint8 (charIndexOf (calculateBrightness (byteNum R) (byteNum G) (byteNum B)) defaultRamp)"
    by blast
  from uni [OF uniformFrame_uniform] out wf show ?thesis
    by (simp add: numeral_2_eq_2)
qed

text \<open>
  Claim C6. For a well-formed frame and a positive cell size, \<open>processPixels\<close> returns
  normally. A cell whose block has no pixel inside the frame is not a cell of the grid: the
  loops visit only the cells \<open>cx < floor(w / s)\<close>, \<open>cy < floor(h / s)\<close>. If the count of a cell
  were zero, \<open>processCell\<close> would leave the output as it is, without dividing. For every
  cell of the grid the three sums are numbers (not \<open>NaN\<close>), the count is the positive number
  of pixels sampled, and the three quotients are numbers.
\<close>

theorem C6_no_empty_cell:
  assumes wf: "length pix = w * h * 4"
    and s: "0 < s"
    and rng: "w < 2 ^ 53" "h < 2 ^ 53" "255 * (s * s) < 2 ^ 53"
  shows "(\<exists>out. processPixels pix w h s ca ramp = Inr out) \<and>
    (\<forall>cx cy. blockPixels w h s cx cy = [] \<longrightarrow> \<not> (cx < floorDiv w s \<and> cy < floorDiv h s)) \<and>
    (\<forall>cx cy out. cellCount pix w h s cx cy = 0 \<longrightarrow>
       processCell pix w h s ramp (floorDiv w s) cy cx out = out) \<and>
    (\<forall>cx < floorDiv w s. \<forall>cy < floorDiv h s.
       \<exists>r g b n. sampleCell pix w h s cx cy = (Num r, Num g, Num b, n) \<and>
         n = length (blockPixels w h s cx cy) \<and> 0 < n \<and>
         jdiv (Num r) (Num (of_nat n)) \<noteq> NaN \<and>
         jdiv (Num g) (Num (of_nat n)) \<noteq> NaN \<and>
         jdiv (Num b) (Num (of_nat n)) \<noteq> NaN)"
proof (intro conjI allI impI)
  show "\<exists>out. processPixels pix w h s ca ramp = Inr out"
    using processPixels_grid [OF s rng(1,2)] by blast
next
  fix cx cy assume "blockPixels w h s cx cy = []"
  then show "\<not> (cx < floorDiv w s \<and> cy < floorDiv h s)"
    unfolding gridDim [OF s rng(1)] gridDim [OF s rng(2)] by (rule blockPixels_empty_outside [OF s])
next
  fix cx cy out assume "cellCount pix w h s cx cy = 0"
  then show "processCell pix w h s ramp (floorDiv w s) cy cx out = out"
    by (rule processCell_skip)
next
  fix cx cy assume "cx < floorDiv w s" "cy < floorDiv h s"
  then have cell: "cx < w div s" "cy < h div s"
    unfolding gridDim [OF s rng(1)] gridDim [OF s rng(2)] .
  have len: "length (blockPixels w h s cx cy) = s * s"
    using cell by (simp add: blockPixels_grid length_blockCoords)
  have n: "0 < s * s" using s by simp
  show "\<exists>r g b n. sampleCell pix w h s cx cy = (Num r, Num g, Num b, n) \<and>
         n = length (blockPixels w h s cx cy) \<and> 0 < n \<and>
         jdiv (Num r) (Num (of_nat n)) \<noteq> NaN \<and>
         jdiv (Num g) (Num (of_nat n)) \<noteq> NaN \<and>
         jdiv (Num b) (Num (of_nat n)) \<noteq> NaN"
    unfolding grid_cell_sample [OF wf rng(3) cell] len
    using n by auto
qed

theorem C6_no_empty_cell_witness:
  "length uniformFrame = 2 * 2 * 4 \<and>
   (\<exists>out. processPixels uniformFrame 2 2 2 (Num 0) defaultRamp = Inr out) \<and>
   floorDiv 2 2 = 1 \<and>
   blockPixels 2 2 2 1 0 = [] \<and> \<not> (1 < floorDiv 2 2 \<and> 0 < floorDiv 2 2) \<and>
   (\<exists>r g b n. sampleCell uniformFrame 2 2 2 0 0 = (Num r, Num g, Num b, n) \<and>
      n = length (blockPixels 2 2 2 0 0) \<and> 0 < n \<and>
      jdiv (Num r) (Num (of_nat n)) \<noteq> NaN \<and>
      jdiv (Num g) (Num (of_nat n)) \<noteq> NaN \<and>
      jdiv (Num b) (Num (of_nat n)) \<noteq> NaN)"
proof -
  have wf: "length uniformFrame = 2 * 2 * 4"
    by (simp add: uniformFrame_def)
  have fd: "floorDiv 2 2 = 1"
    using gridDim [of 2 2] by simp
  have "(\<exists>out. processPixels uniformFrame 2 2 2 (Num 0) defaultRamp = Inr out) \<and>
    (\<forall>cx cy. blockPixels 2 2 2 cx cy = [] \<longrightarrow> \<not> (cx < floorDiv 2 2 \<and> cy < floorDiv 2 2)) \<and>
    (\<forall>cx cy out. cellCount uniformFrame 2 2 2 cx cy = 0 \<longrightarrow>
       processCell uniformFrame 2 2 2 defaultRamp (floorDiv 2 2) cy cx out = out) \<and>
    (\<forall>cx < floorDiv 2 2. \<forall>cy < floorDiv 2 2.
       \<exists>r g b n. sampleCell uniformFrame 2 2 2 cx cy = (Num r, Num g, Num b, n) \<and>
         n = length (blockPixels 2 2 2 cx cy) \<and> 0 < n \<and>
         jdiv (Num r) (Num (of_nat n)) \<noteq> NaN \<and>
         jdiv (Num g) (Num (of_nat n)) \<noteq> NaN \<and>
         jdiv (Num b) (Num (of_nat n)) \<noteq> NaN)"
    by (rule C6_no_empty_cell [OF wf]) simp_all
  then have a: "\<exists>out. processPixels uniformFrame 2 2 2 (Num 0) defaultRamp = Inr out"
    and b: "blockPixels 2 2 2 1 0 = [] \<longrightarrow> \<not> (1 < floorDiv 2 2 \<and> 0 < floorDiv 2 2)"
    and c: "0 < floorDiv 2 2 \<longrightarrow> 0 < floorDiv 2 2 \<longrightarrow>
       (\<exists>r g b n. sampleCell uniformFrame 2 2 2 0 0 = (Num r, Num g, Num b, n) \<and>
         n = length (blockPixels 2 2 2 0 0) \<and> 0 < n \<and>
         jdiv (Num r) (Num (of_nat n)) \<noteq> NaN \<and>
         jdiv (Num g) (Num (of_nat n)) \<noteq> NaN \<and>
         jdiv (Num b) (Num (of_nat n)) \<noteq> NaN)"
    by blast+
  from c have c': "\<exists>r g b n. sampleCell uniformFrame 2 2 2 0 0 = (Num r, Num g, Num b, n) \<and>
         n = length (blockPixels 2 2 2 0 0) \<and> 0 < n \<and>
         jdiv (Num r) (Num (of_nat n)) \<noteq> NaN \<and>
         jdiv (Num g) (Num (of_nat n)) \<noteq> NaN \<and>
         jdiv (Num b) (Num (of_nat n)) \<noteq> NaN"
    by (simp add: fd)
  from b blockPixels_outside have b': "\<not> (1 < floorDiv 2 2 \<and> 0 < floorDiv 2 2)"
    by blast
  show ?thesis
    using wf a fd blockPixels_outside b' c' by (intro conjI)
qed

text \<open>
  Claim C10. With the default ramp of ten glyphs, every fourth byte of the array returned by
  \<open>processPixels\<close> (the glyph index of a cell) is at most 9, so the renderer's
  \<open>asciiChars[charIndex]\<close> reads a character of the ramp. No assumption on the frame is
  needed: its channel values are bytes by type.
\<close>

theorem C10_glyph_index_in_ramp:
  assumes out: "processPixels pix w h s ca defaultRamp = Inr out"
    and j: "j < length out" "j mod 4 = 3"
  shows "unat (out ! j) \<le> length defaultRamp - 1 \<and>
    charAt defaultRamp (rd out j) = Some (defaultRamp ! unat (out ! j))"
proof -
  have s: "0 < s"
    using out j(1) by (cases "s = 0") (auto simp add: processPixels_def split: if_splits)
  define cw ch where "cw = floorDiv w s" and "ch = floorDiv h s"
  define init :: "8 word list" where "init = replicate (cw * ch * 4) 0"
  have o: "out = fold (\<lambda>cy. fold (\<lambda>cx. processCell pix w h s defaultRamp cw cy cx) [0..<cw])
      [0..<ch] init"
    using out unfolding processPixels_pos [OF s] cw_def ch_def init_def by simp
  have len: "length out = cw * ch * 4"
    by (simp add: o init_def)
  have "out ! j =
    (if j div 4 < ch * cw \<and> cellCount pix w h s (j div 4 mod cw) (j div 4 div cw) > 0
     then cellBytes pix w h s defaultRamp (j div 4 mod cw) (j div 4 div cw) ! (j mod 4)
     else init ! j)"
    unfolding o using j(1) len by (intro grid_nth) (simp_all add: init_def mult.commute)
  then have "out ! j = 0 \<or> (\<exists>cx cy. out ! j = cellBytes pix w h s defaultRamp cx cy ! 3)"
    using j len by (auto simp add: init_def)
  then have le: "unat (out ! j) \<le> 9"
  proof
    assume "out ! j = 0"
    then show ?thesis by simp
  next
    assume "\<exists>cx cy. out ! j = cellBytes pix w h s defaultRamp cx cy ! 3"
    then obtain cx cy where "out ! j = cellBytes pix w h s defaultRamp cx cy ! 3"
      by blast
    moreover obtain R G B where "cellBytes pix w h s defaultRamp cx cy ! 3 =
        toUint8 (charIndexOf (calculateBrightness (byteNum R) (byteNum G) (byteNum B)) defaultRamp)"
      using cellBytes_glyph by blast
    ultimately show ?thesis
      using glyph_byte_default [of R G B] by (simp only:)
  qed
  then have "unat (out ! j) < length defaultRamp"
    by (simp add: defaultRamp_def)
  from charAt_byte [OF j(1) this] le show ?thesis
    by (simp add: defaultRamp_def)
qed

theorem C10_glyph_index_in_ramp_witness:
  "processPixels redPixel 1 1 1 (Num 0) defaultRamp = Inr [255, 0, 0, 2] \<and>
   (3 :: nat) < length [255, 0, 0, 2 :: 8 word] \<and> (3 :: nat) mod 4 = 3 \<and>
   unat ([255, 0, 0, 2 :: 8 word] ! 3) \<le> length defaultRamp - 1 \<and>
   charAt defaultRamp (rd [255, 0, 0, 2] 3) = Some (defaultRamp ! unat ([255, 0, 0, 2 :: 8 word] ! 3))"
proof -
  have h: "(3 :: nat) < length [255, 0, 0, 2 :: 8 word]" "(3 :: nat) mod 4 = 3"
    by simp_all
  from C10_glyph_index_in_ramp [OF processPixels_red h] processPixels_red h show ?thesis
    by blast
qed

section \<open>The character mapper\<close>

text \<open>
  Claim C4, as amended. For a brightness in \<open>[0, 1]\<close> and a non-empty ramp, the index
  \<open>Math.floor(brightness * (asciiChars.length - 1))\<close> is an integer between 0 and the last
  position of the ramp, and indexing the ramp with it yields a glyph. (A JavaScript string has
  fewer than \<open>2 ^ 53\<close> characters.) Nothing is clamped: a brightness outside \<open>[0, 1]\<close> can
  give an index outside the ramp (brightness 2 with the default ramp gives 18, where the ramp
  has no glyph). The brightness the program computes from three bytes is always a number in
  \<open>[0, 1]\<close>.
\<close>

theorem C4_index_in_range:
  assumes "0 \<le> b" "b \<le> 1" "ramp \<noteq> []" "length ramp \<le> 2 ^ 53"
  shows "(\<exists>i. charIndexOf (Num b) ramp = Num (of_int i) \<and>
      i = \<lfloor>roundDouble (b * (of_nat (length ramp) - 1))\<rfloor> \<and>
      0 \<le> i \<and> i \<le> int (length ramp) - 1 \<and>
      charAt ramp (charIndexOf (Num b) ramp) = Some (ramp ! nat i)) \<and>
    (\<exists>v. calculateBrightness (byteNum R) (byteNum G) (byteNum B) = Num v \<and> 0 \<le> v \<and> v \<le> 1) \<and>
    charIndexOf (Num 2) defaultRamp = Num 18 \<and> charAt defaultRamp (Num 18) = None"
proof -
  obtain i where i: "charIndexOf (Num b) ramp = Num (of_int i)" "0 \<le> i"
    "i \<le> int (length ramp) - 1" "i = \<lfloor>roundDouble (b * (of_nat (length ramp) - 1))\<rfloor>"
    using charIndexOf_range [OF assms] by blast
  have "nat i < length ramp"
    using i(2,3) by linarith
  then have "charAt ramp (Num (of_nat (nat i))) = Some (ramp ! nat i)"
    by (rule charAt_nat)
  moreover have "(of_nat (nat i) :: rat) = of_int i"
    using i(2) by simp
  ultimately have "charAt ramp (charIndexOf (Num b) ramp) = Some (ramp ! nat i)"
    by (simp only: i(1))
  with i brightness_bytes [of R G B] index_of_two show ?thesis by blast
qed

theorem C4_index_in_range_witness:
  "(0 :: rat) \<le> 1 / 2 \<and> (1 / 2 :: rat) \<le> 1 \<and> defaultRamp \<noteq> [] \<and> length defaultRamp \<le> 2 ^ 53 \<and>
   (\<exists>i. charIndexOf (Num (1 / 2)) defaultRamp = Num (of_int i) \<and>
      i = \<lfloor>roundDouble (1 / 2 * (of_nat (length defaultRamp) - 1))\<rfloor> \<and>
      0 \<le> i \<and> i \<le> int (length defaultRamp) - 1 \<and>
      charAt defaultRamp (charIndexOf (Num (1 / 2)) defaultRamp) = Some (defaultRamp ! nat i)) \<and>
   (\<exists>v. calculateBrightness (byteNum 255) (byteNum 0) (byteNum 0) = Num v \<and> 0 \<le> v \<and> v \<le> 1) \<and>
   charIndexOf (Num 2) defaultRamp = Num 18 \<and> charAt defaultRamp (Num 18) = None"
proof -
  have h: "(0 :: rat) \<le> 1 / 2" "(1 / 2 :: rat) \<le> 1" "defaultRamp \<noteq> []"
    "length defaultRamp \<le> 2 ^ 53"
    by (simp_all add: defaultRamp_def)
  from C4_index_in_range [OF h, of 255 0 0] h show ?thesis
    by blast
qed

text \<open>
  Claim C4 as stated fails outside \<open>[0, 1]\<close>: for brightness 2 and the default ramp the index
  is 18, not 9; the renderer's lookup gives \<open>undefined\<close>, and the byte stored by
  \<open>processPixels\<close> would be 18.
\<close>

theorem C4_no_clamp_counterexample:
  "charIndexOf (Num 2) defaultRamp = Num 18 \<and>
   charAt defaultRamp (charIndexOf (Num 2) defaultRamp) = None \<and>
   toUint8 (charIndexOf (Num 2) defaultRamp) = 18 \<and>
   int (length defaultRamp) - 1 = 9"
  by code_simp

text \<open>
  Claim C5, as amended. For brightness values \<open>0 \<le> b1 < b2 \<le> 1\<close> and a non-empty ramp the
  indices \<open>Math.floor(brightness * (asciiChars.length - 1))\<close> are integers with
  \<open>index b1 \<le> index b2\<close>. The byte that \<open>processPixels\<close> stores is the index modulo 256;
  for ramps of at most 256 glyphs the bytes are ordered in the same way.
\<close>

theorem C5_index_monotone:
  assumes "0 \<le> b1" "b1 < b2" "b2 \<le> 1" "ramp \<noteq> []"
  shows "\<exists>i1 i2. charIndexOf (Num b1) ramp = Num (of_int i1) \<and>
    charIndexOf (Num b2) ramp = Num (of_int i2) \<and> i1 \<le> i2 \<and>
    (length ramp \<le> 256 \<longrightarrow>
       unat (toUint8 (charIndexOf (Num b1) ramp)) \<le> unat (toUint8 (charIndexOf (Num b2) ramp)))"
proof -
  define m where "m = roundDouble (of_nat (length ramp) - 1)"
  define i1 i2 where "i1 = \<lfloor>roundDouble (b1 * m)\<rfloor>" and "i2 = \<lfloor>roundDouble (b2 * m)\<rfloor>"
  have "(1 :: rat) \<le> of_nat (length ramp)"
    using assms(4) by (cases ramp) simp_all
  then have m: "0 \<le> m"
    unfolding m_def by (intro roundDouble_nonneg) simp
  have "roundDouble (b1 * m) \<le> roundDouble (b2 * m)"
    using assms m by (intro roundDouble_mono mult_right_mono mult_nonneg_nonneg) simp_all
  then have le: "i1 \<le> i2"
    unfolding i1_def i2_def by (rule floor_mono)
  have e1: "charIndexOf (Num b1) ramp = Num (of_int i1)"
    and e2: "charIndexOf (Num b2) ramp = Num (of_int i2)"
    by (simp_all add: charIndexOf_Num i1_def i2_def m_def)
  have bytes: "unat (toUint8 (Num (of_int i1))) \<le> unat (toUint8 (Num (of_int i2)))"
    if small: "length ramp \<le> 256"
  proof -
    have l53: "length ramp \<le> 2 ^ 53"
      using small by simp
    obtain j1 where j1: "charIndexOf (Num b1) ramp = Num (of_int j1)" "0 \<le> j1"
      "j1 \<le> int (length ramp) - 1"
      using charIndexOf_range [of b1 ramp] assms l53 by auto
    obtain j2 where j2: "charIndexOf (Num b2) ramp = Num (of_int j2)" "0 \<le> j2"
      "j2 \<le> int (length ramp) - 1"
      using charIndexOf_range [of b2 ramp] assms l53 by auto
    have "j1 = i1" "j2 = i2"
      using j1(1) j2(1) e1 e2 by simp_all
    then have r: "0 \<le> i1" "i1 \<le> 255" "0 \<le> i2" "i2 \<le> 255"
      using j1 j2 small by simp_all
    show ?thesis
      using le r by (simp add: toUint8_small del: toUint8.simps)
  qed
  show ?thesis
    using e1 e2 le bytes by auto
qed

theorem C5_index_monotone_witness:
  "(0 :: rat) \<le> 1 / 4 \<and> (1 / 4 :: rat) < 1 / 2 \<and> (1 / 2 :: rat) \<le> 1 \<and> defaultRamp \<noteq> [] \<and>
   (\<exists>i1 i2. charIndexOf (Num (1 / 4)) defaultRamp = Num (of_int i1) \<and>
      charIndexOf (Num (1 / 2)) defaultRamp = Num (of_int i2) \<and> i1 \<le> i2 \<and>
      unat (toUint8 (charIndexOf (Num (1 / 4)) defaultRamp))
        \<le> unat (toUint8 (charIndexOf (Num (1 / 2)) defaultRamp)))"
proof -
  have h: "(0 :: rat) \<le> 1 / 4" "(1 / 4 :: rat) < 1 / 2" "(1 / 2 :: rat) \<le> 1" "defaultRamp \<noteq> []"
    by (simp_all add: defaultRamp_def)
  have "length defaultRamp \<le> 256"
    by (simp add: defaultRamp_def)
  with C5_index_monotone [OF h] h show ?thesis
    by auto
qed

text \<open>
  Claim C5 as stated fails for the glyph index that \<open>processPixels\<close> emits when the ramp is
  longer than 256 glyphs. With 300 glyphs the index of brightness 1/2 is 149 and that of
  brightness 1 is 299, which is stored as the byte 43; a gray pixel gets the glyph byte 150
  and a white pixel, which is brighter, the glyph byte 43.
\<close>

theorem C5_long_ramp_counterexample:
  "longRamp \<noteq> [] \<and> (0 :: rat) \<le> 1 / 2 \<and> (1 / 2 :: rat) < 1 \<and>
   charIndexOf (Num (1 / 2)) longRamp = Num 149 \<and>
   charIndexOf (Num 1) longRamp = Num 299 \<and>
   unat (toUint8 (charIndexOf (Num (1 / 2)) longRamp)) = 149 \<and>
   unat (toUint8 (charIndexOf (Num 1) longRamp)) = 43 \<and>
   processPixels grayPixel 1 1 1 (Num 0) longRamp = Inr [128, 128, 128, 150] \<and>
   processPixels whitePixel 1 1 1 (Num 0) longRamp = Inr [255, 255, 255, 43]"
  by code_simp

section \<open>The converter\<close>

text \<open>
  Claim C3. Let a frame of positive width \<open>w\<close> and height \<open>h\<close> be converted on the CPU path
  after the settings were updated to the positive font size \<open>s\<close>. The grid dimensions
  computed in doubles are \<open>w div s\<close> and \<open>h div s\<close>; the array of the pixel processor has
  four bytes for each of the \<open>(w div s) * (h div s)\<close> cells; and the canvas, resized and
  cleared, holds exactly one glyph per cell of that grid, at the cell's origin. Nothing of
  what the canvas held before appears in the result.
\<close>

theorem C3_grid_dimensions:
  assumes run: "\<not> paused vid" "\<not> ended vid"
    and cpu: "webglAttempt (updateOptions upd conv) vid = None"
    and wasm: "useWASM (currentOptions conv)" "wasmProcessor conv = Some True"
    and s: "newFontSize upd = Some s" "0 < s"
    and dims: "0 < videoWidth vid" "videoWidth vid < 2 ^ 53"
      "0 < videoHeight vid" "videoHeight vid < 2 ^ 53"
  shows "floorDiv (videoWidth vid) s = videoWidth vid div s \<and>
    floorDiv (videoHeight vid) s = videoHeight vid div s \<and>
    (\<exists>out. processPixels (frame vid) (videoWidth vid) (videoHeight vid) s ca ramp = Inr out \<and>
       length out = (videoWidth vid div s) * (videoHeight vid div s) * 4) \<and>
    (\<exists>conv' drawn. processFrame (updateOptions upd conv) vid = Inr (conv', True) \<and>
       width (canvas conv') = videoWidth vid \<and> height (canvas conv') = videoHeight vid \<and>
       surface (canvas conv') = Text (bgColor (currentOptions (updateOptions upd conv))) drawn \<and>
       map (\<lambda>g. (posX g, posY g)) drawn = gridOrigins (videoWidth vid) (videoHeight vid) s \<and>
       length drawn = (videoWidth vid div s) * (videoHeight vid div s))"
proof -
  define w h where "w = videoWidth vid" and "h = videoHeight vid"
  define c where "c = updateOptions upd conv"
  note gw = gridDim [OF s(2) dims(2), folded w_def]
  note gh = gridDim [OF s(2) dims(4), folded h_def]
  have fs: "fontSize (currentOptions c) = s" "useWASM (currentOptions c)"
    "wasmProcessor c = Some True"
    using s(1) wasm by (simp_all add: c_def updateOptions_fields)
  define out where "out = fold (\<lambda>cy. fold (\<lambda>cx. processCell (frame vid) w h s (asciiChars c)
      (w div s) cy cx) [0..<w div s]) [0..<h div s] (replicate (w div s * (h div s) * 4) 0)"
  have pp: "processPixels (frame vid) w h s a r =
      Inr (fold (\<lambda>cy. fold (\<lambda>cx. processCell (frame vid) w h s r
      (w div s) cy cx) [0..<w div s]) [0..<h div s] (replicate (w div s * (h div s) * 4) 0))" for a r
    using dims s(2) unfolding w_def h_def by (intro processPixels_grid) simp_all
  have len: "length out = w div s * (h div s) * 4"
    by (simp add: out_def)
  define drawn where "drawn = concat (map (\<lambda>y. concat (map (\<lambda>x.
      renderCell (asciiChars c) s (colorAccuracy (currentOptions c)) w h (Uint8Array out)
        (w div s) (h div s) y x) [0..<w div s])) [0..<h div s])"
  have pf: "processFrame c vid =
      Inr (c\<lparr>canvas := \<lparr>width = w, height = h, surface = Text (bgColor (currentOptions c)) drawn\<rparr>\<rparr>, True)"
    using run cpu dims s(2)
    by (simp add: processFrame_def c_def [symmetric] fs processVideoFrame_def
        pp [folded w_def h_def] w_def [symmetric] h_def [symmetric] gw gh Let_def renderASCII_def
        resized_def out_def [symmetric] drawn_def)
  have origins: "map (\<lambda>g. (posX g, posY g)) drawn = gridOrigins w h s"
    unfolding drawn_def gridOrigins_def using len by (rule render_origins)
  then have "length (map (\<lambda>g. (posX g, posY g)) drawn) = (w div s) * (h div s)"
    by (simp only: length_gridOrigins)
  then have ld: "length drawn = (w div s) * (h div s)"
    by simp
  show ?thesis
    unfolding w_def [symmetric] h_def [symmetric] c_def [symmetric]
    using gw gh pp [of ca ramp] pf origins ld by simp
qed

theorem C3_grid_dimensions_witness:
  "\<not> paused uniformVideo \<and> \<not> ended uniformVideo \<and>
   webglAttempt (updateOptions fontSizeTwo staleConverter) uniformVideo = None \<and>
   useWASM (currentOptions staleConverter) \<and> wasmProcessor staleConverter = Some True \<and>
   newFontSize fontSizeTwo = Some 2 \<and>
   floorDiv 2 2 = 1 \<and>
   (\<exists>out. processPixels uniformFrame 2 2 2 (Num 0) defaultRamp = Inr out \<and> length out = 4) \<and>
   (\<exists>conv' drawn. processFrame (updateOptions fontSizeTwo staleConverter) uniformVideo =
       Inr (conv', True) \<and>
      surface (canvas conv') = Text ''#000000'' drawn \<and>
      map (\<lambda>g. (posX g, posY g)) drawn = [(0, 0)] \<and> length drawn = 1)"
proof -
  have h: "\<not> paused uniformVideo" "\<not> ended uniformVideo"
    "webglAttempt (updateOptions fontSizeTwo staleConverter) uniformVideo = None"
    "useWASM (currentOptions staleConverter)" "wasmProcessor staleConverter = Some True"
    "newFontSize fontSizeTwo = Some 2" "0 < (2 :: nat)"
    "0 < videoWidth uniformVideo" "videoWidth uniformVideo < 2 ^ 53"
    "0 < videoHeight uniformVideo" "videoHeight uniformVideo < 2 ^ 53"
    by (simp_all add: uniformVideo_def staleConverter_def grayConverter_def fontSizeTwo_def
        webglAttempt_def updateOptions_def)
  have v: "videoWidth uniformVideo = 2" "videoHeight uniformVideo = 2"
    "frame uniformVideo = uniformFrame"
    by (simp_all add: uniformVideo_def)
  have bg: "bgColor (currentOptions (updateOptions fontSizeTwo staleConverter)) = ''#000000''"
    by (simp add: staleConverter_def grayConverter_def fontSizeTwo_def updateOptions_def)
  have g: "gridOrigins 2 2 2 = [(0, 0)]"
    by (simp add: gridOrigins_def)
  from C3_grid_dimensions [OF h, of "Num 0" defaultRamp] h(1-6) show ?thesis
    unfolding v bg g by auto
qed

text \<open>
  Claim C1 at a failing input: one red pixel, font size 1, colour accuracy 0. With the pixel
  processor (the path every run takes, since its initialisation cannot fail) the glyph is
  painted with the mean colour (255, 0, 0): \<open>processPixels\<close> never uses \<open>colorAccuracy\<close>
  (its result is the same for any two values of it), and \<open>renderASCII\<close> paints the bytes it
  is given. Without the pixel processor the
  fallback branch of \<open>renderASCII\<close> blends and paints the gray (76, 76, 76).
\<close>

theorem C1_color_accuracy_ignored:
  "colorAccuracy (currentOptions grayConverter) = Num 0 \<and>
   map_sum id (surface \<circ> canvas \<circ> fst) (processFrame grayConverter redVideo) =
     Inr (Text ''#000000''
       [\<lparr>fillStyle = (Num 255, Num 0, Num 0), glyphChar = Some CHR '':'', posX = 0, posY = 0\<rparr>]) \<and>
   map_sum id (surface \<circ> canvas \<circ> fst)
       (processFrame (grayConverter\<lparr>wasmProcessor := None\<rparr>) redVideo) =
     Inr (Text ''#000000''
       [\<lparr>fillStyle = (Num 76, Num 76, Num 76), glyphChar = Some CHR '':'', posX = 0, posY = 0\<rparr>]) \<and>
   processPixels pix w h s ca ramp = processPixels pix w h s ca' ramp"
  using red_processed red_fallback by (simp add: processPixels_def grayConverter_def)

section \<open>Properties of the export pipeline\<close>

lemma startExport_started:
  "startExport supported Started ex =
     (ex\<lparr>recordedChunks := [], isRecording := True,
         mediaRecorder := Some \<lparr>mimeType = getSupportedMimeType supported, state = Recording\<rparr>\<rparr>, True)"
  by (simp add: startExport_def Let_def)

text \<open>
  Claim C7, as amended. The rejection of a second start lives in the controller:
  \<open>VideoToASCIIApp.startExport\<close> returns at once, changing nothing, while \<open>isExporting\<close>
  is set; \<open>finishExport\<close> clears the flag, after which a start is accepted again.
\<close>

theorem C7_controller_rejects_second_start:
  assumes "isExporting a"
  shows "app_startExport supported outcome a = a \<and>
    \<not> isExporting (finishExport supported final a) \<and>
    isExporting (app_startExport supported Started (finishExport supported final a))"
proof -
  have "\<not> isExporting (finishExport supported final a)"
    by (simp add: finishExport_def Let_def split: prod.splits option.splits)
  moreover from this
  have "isExporting (app_startExport supported Started (finishExport supported final a))"
    by (simp add: app_startExport_def startExport_started startProcessing_def Let_def)
  ultimately show ?thesis
    using assms by (simp add: app_startExport_def)
qed

theorem C7_controller_rejects_second_start_witness:
  "isExporting exportingApp \<and> app_startExport anyType Started exportingApp = exportingApp \<and>
   \<not> isExporting (finishExport anyType emptyChunk exportingApp) \<and>
   isExporting (app_startExport anyType Started (finishExport anyType emptyChunk exportingApp))"
proof -
  have h: "isExporting exportingApp" by (simp add: exportingApp_def)
  from C7_controller_rejects_second_start [OF h] h show ?thesis by simp
qed

text \<open>
  Claim C7 as stated fails for the capture pipeline itself: \<open>VideoExporter.startExport\<close>
  called on an exporter that is recording (one chunk buffered) succeeds, drops the chunk and
  installs a new recorder.
\<close>

theorem C7_exporter_restarts_counterexample:
  "isRecording recordingExporter \<and>
   recordedChunks recordingExporter = [chunkA] \<and>
   snd (startExport anyType Started recordingExporter) = True \<and>
   recordedChunks (fst (startExport anyType Started recordingExporter)) = [] \<and>
   fst (startExport anyType Started recordingExporter) \<noteq> recordingExporter"
  by (simp add: startExport_started recordingExporter_def)

text \<open>
  Claim C8, as amended. The \<open>error\<close> handler only clears \<open>isRecording\<close>: the recorder
  field and the buffered chunks are kept as they are, and in the controller neither
  \<open>isExporting\<close> nor the alerts nor the downloads change. If the recorder is inactive
  afterwards (the state in which an error leaves it), finishing the export downloads nothing
  and raises no alert, and the chunks are still buffered.
\<close>

theorem C8_error_handler_keeps_chunks:
  "isRecording (onerror ex) = False \<and>
   recordedChunks (onerror ex) = recordedChunks ex \<and>
   mediaRecorder (onerror ex) = mediaRecorder ex \<and>
   isExporting (app_onerror a) = isExporting a \<and>
   alerts (app_onerror a) = alerts a \<and>
   downloads (app_onerror a) = downloads a \<and>
   recordedChunks (videoExporter (app_onerror a)) = recordedChunks (videoExporter a) \<and>
   (\<forall>r. mediaRecorder (videoExporter a) = Some r \<and> state r = Inactive \<longrightarrow>
      downloads (finishExport supported final (app_onerror a)) = downloads a \<and>
      alerts (finishExport supported final (app_onerror a)) = alerts a \<and>
      recordedChunks (videoExporter (finishExport supported final (app_onerror a))) =
        recordedChunks (videoExporter a))"
proof -
  have "finishExport supported final b = (if isExporting b then b\<lparr>isExporting := False\<rparr> else b)"
    if "mediaRecorder (videoExporter b) = Some r" "state r = Inactive" for b r
    using that by (simp add: finishExport_def stopExport_def)
  then have "downloads (finishExport supported final (app_onerror a)) = downloads a \<and>
      alerts (finishExport supported final (app_onerror a)) = alerts a \<and>
      recordedChunks (videoExporter (finishExport supported final (app_onerror a))) =
        recordedChunks (videoExporter a)"
    if "mediaRecorder (videoExporter a) = Some r" "state r = Inactive" for r
    using that by (simp add: app_onerror_def onerror_def)
  then show ?thesis
    by (simp add: onerror_def app_onerror_def)
qed

theorem C8_error_handler_keeps_chunks_witness:
  "mediaRecorder (videoExporter failedApp) =
     Some \<lparr>mimeType = ''video/webm;codecs=vp9,opus'', state = Inactive\<rparr> \<and>
   state \<lparr>mimeType = ''video/webm;codecs=vp9,opus'', state = Inactive\<rparr> = Inactive \<and>
   downloads (finishExport anyType emptyChunk (app_onerror failedApp)) = [] \<and>
   alerts (finishExport anyType emptyChunk (app_onerror failedApp)) = [] \<and>
   recordedChunks (videoExporter (finishExport anyType emptyChunk (app_onerror failedApp))) =
     [chunkA]"
proof -
  have h: "mediaRecorder (videoExporter failedApp) =
      Some \<lparr>mimeType = ''video/webm;codecs=vp9,opus'', state = Inactive\<rparr>"
    "state \<lparr>mimeType = ''video/webm;codecs=vp9,opus'', state = Inactive\<rparr> = Inactive"
    by (simp_all add: failedApp_def exportingApp_def recordingExporter_def)
  have v: "downloads failedApp = []" "alerts failedApp = []"
    "recordedChunks (videoExporter failedApp) = [chunkA]"
    by (simp_all add: failedApp_def exportingApp_def recordingExporter_def)
  from C8_error_handler_keeps_chunks [of _ failedApp anyType emptyChunk] h show ?thesis
    unfolding v by blast
qed

text \<open>
  Claim C8 as stated fails: after the \<open>error\<close> event the chunk buffered so far is still in
  \<open>recordedChunks\<close>, the controller still believes an export is running and no alert was
  raised.
\<close>

theorem C8_chunks_survive_error_counterexample:
  "recordedChunks (videoExporter (app_onerror exportingApp)) = [chunkA] \<and>
   isExporting (app_onerror exportingApp) \<and>
   alerts (app_onerror exportingApp) = []"
  by (simp add: app_onerror_def onerror_def exportingApp_def recordingExporter_def)

text \<open>
  Claim C9 at a failing input: the source is an object URL (no \<open>.mp4\<close> in it) and the
  recorder supports only the MP4 types. The download is an MP4 blob named \<open>.webm\<close>.
\<close>

theorem C9_extension_mismatch:
  "downloads (finishExport onlyMp4 chunkA safariApp) =
     [(''ascii-video.webm'',
       \<lparr>bytes = bytes chunkA @ bytes chunkA, btype = ''video/mp4;codecs=h264,aac''\<rparr>)] \<and>
   container ''video/mp4;codecs=h264,aac'' = ''mp4'' \<and>
   extension ''ascii-video.webm'' = ''webm''"
  by (simp add: finishExport_def stopExport_def safariApp_def exportingApp_def
      recordingExporter_def ondataavailable_def newBlob_def convertToMP4_def exportFilename_def
      getSupportedMimeType_def mimeTypes_def onlyMp4_def chunkA_def container_def extension_def
      Let_def)

end
